theory Spec2Isabelle
  imports Main "HOL-Library.Word"
begin

section \<open>Data model of the DAL keystore context registry\<close>

text \<open>
  The driver keeps a global list \<open>dal_contexts\<close> of client contexts; every context owns a
  list of key slots. The kernel's intrusive \<open>list_head\<close> lists are modelled as HOL lists
  read from the head: \<open>list_add\<close> (insertion right after the list head) is \<open>#\<close>,
  \<open>list_del\<close> removes the visited element, and \<open>list_for_each\<close> /
  \<open>list_for_each_safe\<close> visit the elements from left to right.
\<close>

type_synonym byte = "8 word"

text \<open>
  The header \<open>dal_context.h\<close> is not part of the sources at hand, so the constants it
  defines are parameters of the model. \<open>DAL_KEYSTORE_CLIENTS_MAX\<close> is compared with an
  \<open>unsigned int\<close> counter and is therefore taken at that type;
  \<open>DAL_KEYSTORE_SLOTS_MAX\<close> is compared with an \<open>int\<close>.
  \<open>WRAPPED_KEY_MAX\<close> is the size of the key buffer inside a slot.
\<close>

record dal_consts =
  DAL_KEYSTORE_CLIENTS_MAX :: "32 word"
  DAL_KEYSTORE_SLOTS_MAX :: int
  KEYSTORE_CLIENT_TICKET_SIZE :: nat
  WRAPPED_KEY_MAX :: nat

text \<open>
  Modelled from the spec: \<open>struct dal_keystore_slot\<close> (declared in \<open>dal_context.h\<close>).
  A slot has an integer id, a key buffer of fixed maximum length that it owns, and the
  length of the key in the buffer. The functions below use the fields \<open>slot_id\<close>,
  \<open>wrapped_key_size\<close> (printed as unsigned) and \<open>wrapped_key\<close>; the buffer is part of
  the slot object, which is allocated and released as a whole.
\<close>

record dal_keystore_slot =
  slot_id :: int
  wrapped_key_size :: nat
  wrapped_key :: "byte list"

text \<open>
  Modelled from the spec: \<open>struct dal_keystore_ctx\<close> (declared in \<open>dal_context.h\<close>).
  A context has a ticket of fixed size and the list of the slots it owns. It is
  identified by the address of its structure (\<open>ctx_addr\<close>), which is what
  \<open>dal_keystore_free_context_ctx\<close> compares.
\<close>

record dal_keystore_ctx =
  ctx_addr :: nat
  client_ticket :: "byte list"
  slots :: "dal_keystore_slot list"

text \<open>
  Memory handed back to the allocator, recorded with the contents it had at the moment
  of release.
\<close>

datatype freed_mem =
  Freed_slot dal_keystore_slot
| Freed_ctx "byte list"

record keystore =
  dal_contexts :: "dal_keystore_ctx list"
  freed :: "freed_mem list"

text \<open>The error numbers of \<open>linux/errno.h\<close> that the functions return negated.\<close>

definition EFAULT :: int where
  "EFAULT = 14"

definition EINVAL :: int where
  "EINVAL = 22"

section \<open>Kernel primitives\<close>

text \<open>\<open>!memcmp(a, b, n)\<close>: the first \<open>n\<close> bytes of both buffers agree.\<close>

definition memcmp_eq :: "byte list \<Rightarrow> byte list \<Rightarrow> nat \<Rightarrow> bool" where
  "memcmp_eq a b n = (take n a = take n b)"

text \<open>
  Modelled from the spec: \<open>kzfree\<close> (the kernel's slab allocator is not part of the
  sources at hand). Secure erase: the whole object is overwritten with zeros before it is
  returned to the allocator; \<open>kzfree(NULL)\<close> does nothing.
\<close>

definition kzfree_slot :: "dal_keystore_slot \<Rightarrow> freed_mem list \<Rightarrow> freed_mem list" where
  "kzfree_slot item fr =
     fr @ [Freed_slot \<lparr>slot_id = 0, wrapped_key_size = 0,
                       wrapped_key = replicate (length (wrapped_key item)) 0\<rparr>]"

definition kzfree_ctx :: "dal_keystore_ctx option \<Rightarrow> freed_mem list \<Rightarrow> freed_mem list" where
  "kzfree_ctx item fr =
     (case item of
        None \<Rightarrow> fr
      | Some c \<Rightarrow> fr @ [Freed_ctx (replicate (length (client_ticket c)) 0)])"

text \<open>
  \<open>kzalloc\<close> returns zeroed memory. The outcome of the allocator is an argument of the
  calling function: the address of the new context (\<open>None\<close> when out of memory), or
  for a slot whether the allocation succeeded.
\<close>

definition kzalloc_ctx :: "dal_consts \<Rightarrow> nat \<Rightarrow> dal_keystore_ctx" where
  "kzalloc_ctx K a =
     \<lparr>ctx_addr = a, client_ticket = replicate (KEYSTORE_CLIENT_TICKET_SIZE K) 0, slots = []\<rparr>"

definition kzalloc_slot :: "dal_consts \<Rightarrow> dal_keystore_slot" where
  "kzalloc_slot K =
     \<lparr>slot_id = 0, wrapped_key_size = 0, wrapped_key = replicate (WRAPPED_KEY_MAX K) 0\<rparr>"

section \<open>Contexts\<close>

definition init_context_struct :: "dal_keystore_ctx option \<Rightarrow> dal_keystore_ctx option" where
  "init_context_struct ctx =
     (case ctx of
        None \<Rightarrow> None
      | Some c \<Rightarrow> Some (c\<lparr>slots := []\<rparr>))"

text \<open>The loop of \<open>deinit_context_struct\<close>: unlink and release every slot.\<close>

fun deinit_slots_loop ::
  "dal_keystore_slot list \<Rightarrow> freed_mem list \<Rightarrow> dal_keystore_slot list \<times> freed_mem list" where
  "deinit_slots_loop [] fr = ([], fr)"
| "deinit_slots_loop (item # q) fr = deinit_slots_loop q (kzfree_slot item fr)"

definition deinit_context_struct ::
  "dal_keystore_ctx option \<Rightarrow> freed_mem list \<Rightarrow> dal_keystore_ctx option \<times> freed_mem list" where
  "deinit_context_struct ctx fr =
     (case ctx of
        None \<Rightarrow> (None, fr)
      | Some c \<Rightarrow>
          (case deinit_slots_loop (slots c) fr of
             (sl, fr') \<Rightarrow> (Some (c\<lparr>slots := sl\<rparr>), fr')))"

fun free_contexts_loop ::
  "dal_keystore_ctx list \<Rightarrow> freed_mem list \<Rightarrow> dal_keystore_ctx list \<times> freed_mem list" where
  "free_contexts_loop [] fr = ([], fr)"
| "free_contexts_loop (item # q) fr =
     (case deinit_context_struct (Some item) fr of
        (item', fr1) \<Rightarrow> free_contexts_loop q (kzfree_ctx item' fr1))"

definition dal_keystore_free_contexts :: "keystore \<Rightarrow> keystore" where
  "dal_keystore_free_contexts st =
     (case free_contexts_loop (dal_contexts st) (freed st) of
        (cs, fr) \<Rightarrow> st\<lparr>dal_contexts := cs, freed := fr\<rparr>)"

text \<open>The counting loop of \<open>dal_keystore_allocate_context\<close>; \<open>cnt\<close> is an \<open>unsigned int\<close>.\<close>

fun count_contexts_loop :: "dal_keystore_ctx list \<Rightarrow> 32 word \<Rightarrow> 32 word" where
  "count_contexts_loop [] cnt = cnt"
| "count_contexts_loop (item # pos) cnt = count_contexts_loop pos (cnt + 1)"

text \<open>
  The result is the pointer \<open>item\<close>: the new context, or \<open>None\<close> for \<open>NULL\<close>.
  \<open>init_context_struct\<close> is only called on a non-null pointer here, so its \<open>None\<close>
  branch is never taken.
\<close>

definition dal_keystore_allocate_context ::
  "dal_consts \<Rightarrow> nat option \<Rightarrow> keystore \<Rightarrow> dal_keystore_ctx option \<times> keystore" where
  "dal_keystore_allocate_context K kz st =
     (let cnt = count_contexts_loop (dal_contexts st) 0 in
      if cnt < DAL_KEYSTORE_CLIENTS_MAX K then
        (case kz of
           None \<Rightarrow> (None, st)
         | Some a \<Rightarrow>
             (case init_context_struct (Some (kzalloc_ctx K a)) of
                None \<Rightarrow> (None, st)
              | Some item \<Rightarrow> (Some item, st\<lparr>dal_contexts := item # dal_contexts st\<rparr>)))
      else (None, st))"

text \<open>
  The loop of \<open>dal_keystore_free_context_ctx\<close>: \<open>None\<close> when no element of the list
  has the address \<open>p\<close>, otherwise the list without the first such element and the
  memory released on the way.
\<close>

fun free_context_ctx_loop ::
  "nat \<Rightarrow> dal_keystore_ctx list \<Rightarrow> freed_mem list \<Rightarrow>
   (dal_keystore_ctx list \<times> freed_mem list) option" where
  "free_context_ctx_loop p [] fr = None"
| "free_context_ctx_loop p (item # q) fr =
     (if ctx_addr item = p then
        (case deinit_context_struct (Some item) fr of
           (item', fr1) \<Rightarrow> Some (q, kzfree_ctx item' fr1))
      else
        (case free_context_ctx_loop p q fr of
           None \<Rightarrow> None
         | Some (r, fr') \<Rightarrow> Some (item # r, fr')))"

definition dal_keystore_free_context_ctx :: "nat option \<Rightarrow> keystore \<Rightarrow> int \<times> keystore" where
  "dal_keystore_free_context_ctx ctx st =
     (case ctx of
        None \<Rightarrow> (- EFAULT, st)
      | Some p \<Rightarrow>
          (case free_context_ctx_loop p (dal_contexts st) (freed st) of
             Some (cs, fr) \<Rightarrow> (0, st\<lparr>dal_contexts := cs, freed := fr\<rparr>)
           | None \<Rightarrow> (- EINVAL, st)))"

fun free_context_ticket_loop ::
  "nat \<Rightarrow> byte list \<Rightarrow> dal_keystore_ctx list \<Rightarrow> freed_mem list \<Rightarrow>
   (dal_keystore_ctx list \<times> freed_mem list) option" where
  "free_context_ticket_loop n t [] fr = None"
| "free_context_ticket_loop n t (item # q) fr =
     (if memcmp_eq t (client_ticket item) n then
        (case deinit_context_struct (Some item) fr of
           (item', fr1) \<Rightarrow> Some (q, kzfree_ctx item' fr1))
      else
        (case free_context_ticket_loop n t q fr of
           None \<Rightarrow> None
         | Some (r, fr') \<Rightarrow> Some (item # r, fr')))"

definition dal_keystore_free_context_ticket ::
  "dal_consts \<Rightarrow> byte list option \<Rightarrow> keystore \<Rightarrow> int \<times> keystore" where
  "dal_keystore_free_context_ticket K client_ticket_arg st =
     (case client_ticket_arg of
        None \<Rightarrow> (- EFAULT, st)
      | Some t \<Rightarrow>
          (case free_context_ticket_loop (KEYSTORE_CLIENT_TICKET_SIZE K) t
                  (dal_contexts st) (freed st) of
             Some (cs, fr) \<Rightarrow> (0, st\<lparr>dal_contexts := cs, freed := fr\<rparr>)
           | None \<Rightarrow> (- EINVAL, st)))"

fun find_context_ticket_loop ::
  "nat \<Rightarrow> byte list \<Rightarrow> dal_keystore_ctx list \<Rightarrow> dal_keystore_ctx option" where
  "find_context_ticket_loop n t [] = None"
| "find_context_ticket_loop n t (item # pos) =
     (if memcmp_eq t (client_ticket item) n then Some item
      else find_context_ticket_loop n t pos)"

text \<open>The result is the pointer to the context found, \<open>None\<close> for \<open>NULL\<close>.\<close>

definition dal_keystore_find_context_ticket ::
  "dal_consts \<Rightarrow> byte list option \<Rightarrow> keystore \<Rightarrow> dal_keystore_ctx option" where
  "dal_keystore_find_context_ticket K client_ticket_arg st =
     (case client_ticket_arg of
        None \<Rightarrow> None
      | Some t \<Rightarrow>
          find_context_ticket_loop (KEYSTORE_CLIENT_TICKET_SIZE K) t (dal_contexts st))"

section \<open>Slots\<close>

text \<open>
  A function that takes a pointer \<open>ctx\<close> takes the context it points to (\<open>None\<close> for
  \<open>NULL\<close>) and, when it writes through the pointer, returns the context as it is
  afterwards. Inside the loops over the slots, \<open>item\<close> is the \<open>list_entry\<close> of a list
  node and never \<open>NULL\<close>, so the test \<open>if (item)\<close> always succeeds.
\<close>

fun find_slot_id_loop :: "dal_keystore_slot list \<Rightarrow> int \<Rightarrow> dal_keystore_slot option" where
  "find_slot_id_loop [] sid = None"
| "find_slot_id_loop (item # pos) sid =
     (if slot_id item = sid then Some item else find_slot_id_loop pos sid)"

definition dal_keystore_find_slot_id ::
  "dal_consts \<Rightarrow> dal_keystore_ctx option \<Rightarrow> int \<Rightarrow> dal_keystore_slot option" where
  "dal_keystore_find_slot_id K ctx sid =
     (case ctx of
        None \<Rightarrow> None
      | Some c \<Rightarrow>
          if sid < 0 \<or> sid \<ge> DAL_KEYSTORE_SLOTS_MAX K then None
          else find_slot_id_loop (slots c) sid)"

text \<open>
  The \<open>for\<close> loop of \<open>dal_keystore_allocate_slot\<close>, started at \<open>id\<close>; its value is
  \<open>id\<close> when the loop is left. The counter stays below the \<open>int\<close> constant
  \<open>DAL_KEYSTORE_SLOTS_MAX\<close>, so it cannot overflow.
\<close>

function lowest_unused_loop :: "dal_consts \<Rightarrow> dal_keystore_ctx \<Rightarrow> int \<Rightarrow> int" where
  "lowest_unused_loop K c i =
     (if i < DAL_KEYSTORE_SLOTS_MAX K then
        (if dal_keystore_find_slot_id K (Some c) i = None then i
         else lowest_unused_loop K c (i + 1))
      else i)"
  by pat_completeness auto
termination
  by (relation "measure (\<lambda>(K, c, i). nat (DAL_KEYSTORE_SLOTS_MAX K - i))") auto

declare lowest_unused_loop.simps [simp del]

definition dal_keystore_allocate_slot ::
  "dal_consts \<Rightarrow> bool \<Rightarrow> dal_keystore_ctx option \<Rightarrow>
   dal_keystore_slot option \<times> dal_keystore_ctx option" where
  "dal_keystore_allocate_slot K kz ctx =
     (case ctx of
        None \<Rightarrow> (None, None)
      | Some c \<Rightarrow>
          (let i = lowest_unused_loop K c 0 in
           if i < DAL_KEYSTORE_SLOTS_MAX K then
             (if kz then
                (let item = (kzalloc_slot K)\<lparr>slot_id := i\<rparr> in
                 (Some item, Some (c\<lparr>slots := item # slots c\<rparr>)))
              else (None, Some c))
           else (None, Some c)))"

text \<open>
  The loop of \<open>dal_keystore_free_slot_id\<close>: \<open>None\<close> when no slot has the id,
  otherwise the first slot that has it and the list without that slot.
\<close>

fun free_slot_id_loop ::
  "dal_keystore_slot list \<Rightarrow> int \<Rightarrow> (dal_keystore_slot \<times> dal_keystore_slot list) option" where
  "free_slot_id_loop [] sid = None"
| "free_slot_id_loop (item # q) sid =
     (if slot_id item = sid then Some (item, q)
      else
        (case free_slot_id_loop q sid of
           None \<Rightarrow> None
         | Some (s, r) \<Rightarrow> Some (s, item # r)))"

definition dal_keystore_free_slot_id ::
  "dal_consts \<Rightarrow> dal_keystore_ctx option \<Rightarrow> int \<Rightarrow> freed_mem list \<Rightarrow>
   int \<times> dal_keystore_ctx option \<times> freed_mem list" where
  "dal_keystore_free_slot_id K ctx sid fr =
     (case ctx of
        None \<Rightarrow> (- EFAULT, None, fr)
      | Some c \<Rightarrow>
          if sid < 0 \<or> sid \<ge> DAL_KEYSTORE_SLOTS_MAX K then (- EINVAL, Some c, fr)
          else
            (case free_slot_id_loop (slots c) sid of
               Some (item, rest) \<Rightarrow> (0, Some (c\<lparr>slots := rest\<rparr>), kzfree_slot item fr)
             | None \<Rightarrow> (- EINVAL, Some c, fr)))"

section \<open>Calls made by the upper layer of the driver\<close>

text \<open>
  The registry is driven by calls of the functions above and by writes through the
  pointers they return: the caller fills in \<open>client_ticket\<close> after
  \<open>dal_keystore_allocate_context\<close>, and the key buffer and its size after
  \<open>dal_keystore_allocate_slot\<close>. A pointer to a context is its address, resolved in the
  global list; \<open>None\<close> is \<open>NULL\<close>. The functions that only read
  (\<open>dal_keystore_find_context_ticket\<close>, \<open>dal_keystore_find_slot_id\<close>) change nothing
  and are not calls of this kind.
\<close>

datatype dal_call =
  Allocate_context "nat option"
| Free_context_ctx "nat option"
| Free_context_ticket "byte list option"
| Free_contexts
| Allocate_slot "nat option" bool
| Free_slot_id "nat option" int
| Write_ticket nat "byte list"
| Write_key nat nat "byte list" nat

fun ctx_at :: "nat \<Rightarrow> dal_keystore_ctx list \<Rightarrow> dal_keystore_ctx option" where
  "ctx_at p [] = None"
| "ctx_at p (c # cs) = (if ctx_addr c = p then Some c else ctx_at p cs)"

fun ctx_store :: "dal_keystore_ctx \<Rightarrow> dal_keystore_ctx list \<Rightarrow> dal_keystore_ctx list" where
  "ctx_store c' [] = []"
| "ctx_store c' (c # cs) =
     (if ctx_addr c = ctx_addr c' then c' # cs else c # ctx_store c' cs)"

text \<open>
  A call is outside the model (\<open>None\<close>) when it dereferences a pointer to a context
  that is not live, when \<open>kzalloc\<close> is said to return the address of a live object, or
  when a write does not fit the fixed-size array it goes to.
\<close>

fun do_call :: "dal_consts \<Rightarrow> dal_call \<Rightarrow> keystore \<Rightarrow> keystore option" where
  "do_call K (Allocate_context kz) st =
     (case kz of
        None \<Rightarrow> Some (snd (dal_keystore_allocate_context K None st))
      | Some a \<Rightarrow>
          if a \<in> ctx_addr ` set (dal_contexts st) then None
          else Some (snd (dal_keystore_allocate_context K (Some a) st)))"
| "do_call K (Free_context_ctx p) st = Some (snd (dal_keystore_free_context_ctx p st))"
| "do_call K (Free_context_ticket t) st = Some (snd (dal_keystore_free_context_ticket K t st))"
| "do_call K Free_contexts st = Some (dal_keystore_free_contexts st)"
| "do_call K (Allocate_slot p kz) st =
     (case p of
        None \<Rightarrow> Some st
      | Some a \<Rightarrow>
          (case ctx_at a (dal_contexts st) of
             None \<Rightarrow> None
           | Some c \<Rightarrow>
               (case snd (dal_keystore_allocate_slot K kz (Some c)) of
                  None \<Rightarrow> Some st
                | Some c' \<Rightarrow> Some (st\<lparr>dal_contexts := ctx_store c' (dal_contexts st)\<rparr>))))"
| "do_call K (Free_slot_id p sid) st =
     (case p of
        None \<Rightarrow> Some st
      | Some a \<Rightarrow>
          (case ctx_at a (dal_contexts st) of
             None \<Rightarrow> None
           | Some c \<Rightarrow>
               (case dal_keystore_free_slot_id K (Some c) sid (freed st) of
                  (r, None, fr) \<Rightarrow> Some (st\<lparr>freed := fr\<rparr>)
                | (r, Some c', fr) \<Rightarrow>
                    Some (st\<lparr>dal_contexts := ctx_store c' (dal_contexts st), freed := fr\<rparr>))))"
| "do_call K (Write_ticket a t) st =
     (case ctx_at a (dal_contexts st) of
        None \<Rightarrow> None
      | Some c \<Rightarrow>
          if length t = length (client_ticket c) then
            Some (st\<lparr>dal_contexts := ctx_store (c\<lparr>client_ticket := t\<rparr>) (dal_contexts st)\<rparr>)
          else None)"
| "do_call K (Write_key a j key n) st =
     (case ctx_at a (dal_contexts st) of
        None \<Rightarrow> None
      | Some c \<Rightarrow>
          if j < length (slots c) \<and> length key = length (wrapped_key (slots c ! j)) then
            Some (st\<lparr>dal_contexts :=
              ctx_store
                (c\<lparr>slots := (slots c)[j := (slots c ! j)\<lparr>wrapped_key_size := n,
                                                          wrapped_key := key\<rparr>]\<rparr>)
                (dal_contexts st)\<rparr>)
          else None)"

fun run :: "dal_consts \<Rightarrow> dal_call list \<Rightarrow> keystore \<Rightarrow> keystore option" where
  "run K [] st = Some st"
| "run K (x # xs) st =
     (case do_call K x st of
        None \<Rightarrow> None
      | Some st' \<Rightarrow> run K xs st')"

text \<open>\<open>LIST_HEAD_INIT(dal_contexts)\<close>: the registry is empty when the module is loaded.\<close>

definition keystore_init :: keystore where
  "keystore_init = \<lparr>dal_contexts = [], freed = []\<rparr>"

section \<open>Properties of states\<close>

definition slot_ids :: "dal_keystore_ctx \<Rightarrow> int set" where
  "slot_ids c = slot_id ` set (slots c)"

definition zero_filled :: "freed_mem \<Rightarrow> bool" where
  "zero_filled m =
     (case m of
        Freed_slot s \<Rightarrow>
          slot_id s = 0 \<and> wrapped_key_size s = 0 \<and>
          wrapped_key s = replicate (length (wrapped_key s)) 0
      | Freed_ctx t \<Rightarrow> t = replicate (length t) 0)"

fun is_freed_slot :: "freed_mem \<Rightarrow> bool" where
  "is_freed_slot (Freed_slot s) = True"
| "is_freed_slot (Freed_ctx t) = False"

text \<open>
  What the release of a slot, or of a context, has to leave in the record of released
  memory: an object of the same extent in which every field and every byte is zero.
\<close>

abbreviation wiped_slot :: "dal_keystore_slot \<Rightarrow> freed_mem" where
  "wiped_slot s \<equiv>
     Freed_slot \<lparr>slot_id = 0, wrapped_key_size = 0,
                 wrapped_key = replicate (length (wrapped_key s)) 0\<rparr>"

abbreviation wiped_ctx :: "dal_keystore_ctx \<Rightarrow> freed_mem" where
  "wiped_ctx c \<equiv> Freed_ctx (replicate (length (client_ticket c)) 0)"

definition slot_count :: "dal_keystore_ctx list \<Rightarrow> nat" where
  "slot_count cs = sum_list (map (\<lambda>c. length (slots c)) cs)"

definition live_slots :: "keystore \<Rightarrow> nat" where
  "live_slots st = sum_list (map (\<lambda>c. length (slots c)) (dal_contexts st))"

text \<open>The slot ids of a context are pairwise different and lie in the range of valid ids.\<close>

definition slots_wf :: "dal_consts \<Rightarrow> dal_keystore_ctx \<Rightarrow> bool" where
  "slots_wf K c =
     (distinct (map slot_id (slots c)) \<and> slot_ids c \<subseteq> {0..<DAL_KEYSTORE_SLOTS_MAX K})"

definition registry_wf :: "dal_consts \<Rightarrow> keystore \<Rightarrow> bool" where
  "registry_wf K st =
     (length (dal_contexts st) \<le> unat (DAL_KEYSTORE_CLIENTS_MAX K) \<and>
      list_all (slots_wf K) (dal_contexts st))"

text \<open>
  The memory released by the destruction of one context: its slots in list order, then
  the context itself.
\<close>

definition destroy_ctx :: "dal_keystore_ctx \<Rightarrow> freed_mem list" where
  "destroy_ctx c = concat (map (\<lambda>s. kzfree_slot s []) (slots c)) @ kzfree_ctx (Some c) []"

section \<open>Concrete configurations used in the examples\<close>

definition K_ex :: dal_consts where
  "K_ex = \<lparr>DAL_KEYSTORE_CLIENTS_MAX = 2, DAL_KEYSTORE_SLOTS_MAX = 4,
           KEYSTORE_CLIENT_TICKET_SIZE = 2, WRAPPED_KEY_MAX = 2\<rparr>"

definition slot_ex :: "int \<Rightarrow> dal_keystore_slot" where
  "slot_ex i = \<lparr>slot_id = i, wrapped_key_size = 0, wrapped_key = [0, 0]\<rparr>"

definition ctx_ex :: "nat \<Rightarrow> byte list \<Rightarrow> int list \<Rightarrow> dal_keystore_ctx" where
  "ctx_ex a t ids = \<lparr>ctx_addr = a, client_ticket = t, slots = map slot_ex ids\<rparr>"

definition calls_full :: "dal_call list" where
  "calls_full =
     [Allocate_context (Some 1), Allocate_context (Some 2),
      Allocate_slot (Some 1) True, Allocate_slot (Some 1) True,
      Allocate_slot (Some 1) True, Allocate_slot (Some 1) True]"

definition st_full :: keystore where
  "st_full = \<lparr>dal_contexts = [ctx_ex 2 [0, 0] [], ctx_ex 1 [0, 0] [3, 2, 1, 0]], freed = []\<rparr>"

definition st_freed :: keystore where
  "st_freed = \<lparr>dal_contexts = [ctx_ex 2 [0, 0] [], ctx_ex 1 [0, 0] [3, 1, 0]],
               freed = [Freed_slot (slot_ex 0)]\<rparr>"

definition st_keyed :: keystore where
  "st_keyed =
     \<lparr>dal_contexts =
        [\<lparr>ctx_addr = 1, client_ticket = [7, 9],
          slots = [\<lparr>slot_id = 1, wrapped_key_size = 2, wrapped_key = [1, 2]\<rparr>,
                   \<lparr>slot_id = 0, wrapped_key_size = 1, wrapped_key = [3, 0]\<rparr>]\<rparr>],
      freed = []\<rparr>"

definition calls_keyed :: "dal_call list" where
  "calls_keyed =
     [Allocate_context (Some 1), Write_ticket 1 [7, 9], Allocate_slot (Some 1) True,
      Write_key 1 0 [3, 0] 1, Allocate_slot (Some 1) True, Write_key 1 0 [1, 2] 2,
      Free_context_ctx (Some 1)]"

definition st_wiped :: keystore where
  "st_wiped =
     \<lparr>dal_contexts = [],
      freed = [Freed_slot (slot_ex 0), Freed_slot (slot_ex 0), Freed_ctx [0, 0]]\<rparr>"

definition st_tickets :: keystore where
  "st_tickets = \<lparr>dal_contexts = [ctx_ex 2 [5, 6] [], ctx_ex 1 [5, 7] [0]], freed = []\<rparr>"

definition st_dup :: keystore where
  "st_dup = \<lparr>dal_contexts = [ctx_ex 2 [0, 0] [], ctx_ex 1 [0, 0] []], freed = []\<rparr>"

definition st_dup_freed :: keystore where
  "st_dup_freed = \<lparr>dal_contexts = [ctx_ex 1 [0, 0] []], freed = [Freed_ctx [0, 0]]\<rparr>"

definition st_one :: keystore where
  "st_one = \<lparr>dal_contexts = [ctx_ex 1 [5, 7] [0]], freed = []\<rparr>"

definition st_two :: keystore where
  "st_two = \<lparr>dal_contexts = [ctx_ex 2 [5, 7] [], ctx_ex 1 [5, 7] [0]], freed = []\<rparr>"

definition slot_keyed :: "int \<Rightarrow> byte list \<Rightarrow> dal_keystore_slot" where
  "slot_keyed i k = \<lparr>slot_id = i, wrapped_key_size = length k, wrapped_key = k\<rparr>"

definition ctx_keyed :: dal_keystore_ctx where
  "ctx_keyed =
     \<lparr>ctx_addr = 1, client_ticket = [7, 9],
      slots = [\<lparr>slot_id = 1, wrapped_key_size = 2, wrapped_key = [1, 2]\<rparr>,
               \<lparr>slot_id = 0, wrapped_key_size = 1, wrapped_key = [3, 0]\<rparr>]\<rparr>"

section \<open>The scan for the lowest unused slot id\<close>

lemma find_slot_id_loop_None:
  "(find_slot_id_loop xs sid = None) = (sid \<notin> slot_id ` set xs)"
  by (induction xs) auto

lemma find_slot_id_loop_Some:
  "find_slot_id_loop xs sid = Some s \<Longrightarrow> s \<in> set xs \<and> slot_id s = sid"
  by (induction xs) (auto split: if_splits)

lemma lowest_unused_loop_found:
  "i < DAL_KEYSTORE_SLOTS_MAX K \<Longrightarrow> dal_keystore_find_slot_id K (Some c) i = None \<Longrightarrow>
   lowest_unused_loop K c i = i"
  by (simp add: lowest_unused_loop.simps [of K c i])

lemma lowest_unused_loop_next:
  "i < DAL_KEYSTORE_SLOTS_MAX K \<Longrightarrow> dal_keystore_find_slot_id K (Some c) i = Some s \<Longrightarrow>
   lowest_unused_loop K c i = lowest_unused_loop K c (i + 1)"
  by (simp add: lowest_unused_loop.simps [of K c i])

lemma lowest_unused_loop_stop:
  "\<not> i < DAL_KEYSTORE_SLOTS_MAX K \<Longrightarrow> lowest_unused_loop K c i = i"
  by (simp add: lowest_unused_loop.simps [of K c i])

lemma lowest_unused_loop_ge: "i \<le> lowest_unused_loop K c i"
proof (induction K c i rule: lowest_unused_loop.induct)
  case (1 K c i)
  then show ?case
    by (auto simp: lowest_unused_loop.simps [of K c i])
qed

lemma lowest_unused_loop_unused:
  "lowest_unused_loop K c i < DAL_KEYSTORE_SLOTS_MAX K \<Longrightarrow> 0 \<le> i \<Longrightarrow>
   lowest_unused_loop K c i \<notin> slot_id ` set (slots c)"
proof (induction K c i rule: lowest_unused_loop.induct)
  case (1 K c i)
  note unfold = lowest_unused_loop.simps [of K c i]
  show ?case
  proof (cases "dal_keystore_find_slot_id K (Some c) i = None")
    case True
    with 1(2,3) show ?thesis
      by (auto simp: unfold dal_keystore_find_slot_id_def find_slot_id_loop_None
               split: if_splits)
  next
    case False
    with 1 show ?thesis
      by (auto simp: unfold split: if_splits)
  qed
qed

lemma lowest_unused_loop_below:
  "i \<le> j \<Longrightarrow> j < lowest_unused_loop K c i \<Longrightarrow> 0 \<le> i \<Longrightarrow> j \<in> slot_id ` set (slots c)"
proof (induction K c i rule: lowest_unused_loop.induct)
  case (1 K c i)
  note unfold = lowest_unused_loop.simps [of K c i]
  from 1(2,3) have lt: "i < DAL_KEYSTORE_SLOTS_MAX K"
    by (simp add: unfold split: if_splits)
  from 1(2,3) have used: "dal_keystore_find_slot_id K (Some c) i \<noteq> None"
    by (simp add: unfold split: if_splits)
  from lt used have rec: "lowest_unused_loop K c i = lowest_unused_loop K c (i + 1)"
    by (auto simp: unfold)
  show ?case
  proof (cases "j = i")
    case True
    with used lt 1(4) show ?thesis
      by (auto simp: dal_keystore_find_slot_id_def find_slot_id_loop_None split: if_splits)
  next
    case False
    with 1(2) have "i + 1 \<le> j" by simp
    moreover from 1(3) rec have "j < lowest_unused_loop K c (i + 1)" by simp
    ultimately show ?thesis using 1(1) [OF lt used] 1(4) by simp
  qed
qed

lemmas ex_defs =
  K_ex_def ctx_ex_def slot_ex_def kzalloc_slot_def kzalloc_ctx_def
  dal_keystore_find_slot_id_def lowest_unused_loop_found lowest_unused_loop_next
  lowest_unused_loop_stop Let_def numeral_2_eq_2

text \<open>
  C1. Whatever the slot list of the context looks like, a call of
  \<open>dal_keystore_allocate_slot\<close> that returns a slot returns one whose id lies in
  \<open>[0, DAL_KEYSTORE_SLOTS_MAX)\<close>, is used by no slot of the context, and is not larger
  than any other id of that range that is unused: it is the smallest unused id. The new
  slot is linked into the context.
\<close>

theorem allocate_slot_lowest_unused:
  assumes "dal_keystore_allocate_slot K kz (Some c) = (Some s, c')"
  shows "0 \<le> slot_id s \<and> slot_id s < DAL_KEYSTORE_SLOTS_MAX K \<and>
         slot_id s \<notin> slot_ids c \<and>
         (\<forall>j. 0 \<le> j \<and> j < DAL_KEYSTORE_SLOTS_MAX K \<and> j \<notin> slot_ids c \<longrightarrow> slot_id s \<le> j) \<and>
         c' = Some (c\<lparr>slots := s # slots c\<rparr>)"
proof -
  let ?i = "lowest_unused_loop K c 0"
  from assms have lt: "?i < DAL_KEYSTORE_SLOTS_MAX K"
    and s: "s = (kzalloc_slot K)\<lparr>slot_id := ?i\<rparr>"
    and c': "c' = Some (c\<lparr>slots := s # slots c\<rparr>)"
    by (auto simp: dal_keystore_allocate_slot_def Let_def split: if_splits)
  from s have id: "slot_id s = ?i" by simp
  have "0 \<le> ?i" by (rule lowest_unused_loop_ge)
  moreover have "?i \<notin> slot_id ` set (slots c)"
    using lt by (rule lowest_unused_loop_unused) simp
  moreover have "?i \<le> j" if "0 \<le> j" "j \<notin> slot_id ` set (slots c)" for j
    using lowest_unused_loop_below [of 0 j K c] that by fastforce
  ultimately show ?thesis using lt id c' by (simp add: slot_ids_def)
qed

text \<open>
  The example of the specification: three allocations in a fresh context give the ids
  0, 1 and 2; after slot 1 is freed the next allocation gives id 1 again, not 3.
\<close>

lemma allocate_slot_example:
  "dal_keystore_allocate_slot K_ex True (Some (ctx_ex 1 [0, 0] [])) =
     (Some (slot_ex 0), Some (ctx_ex 1 [0, 0] [0]))"
  "dal_keystore_allocate_slot K_ex True (Some (ctx_ex 1 [0, 0] [0])) =
     (Some (slot_ex 1), Some (ctx_ex 1 [0, 0] [1, 0]))"
  "dal_keystore_allocate_slot K_ex True (Some (ctx_ex 1 [0, 0] [1, 0])) =
     (Some (slot_ex 2), Some (ctx_ex 1 [0, 0] [2, 1, 0]))"
  "dal_keystore_free_slot_id K_ex (Some (ctx_ex 1 [0, 0] [2, 1, 0])) 1 [] =
     (0, Some (ctx_ex 1 [0, 0] [2, 0]), [Freed_slot (slot_ex 0)])"
  "dal_keystore_allocate_slot K_ex True (Some (ctx_ex 1 [0, 0] [2, 0])) =
     (Some (slot_ex 1), Some (ctx_ex 1 [0, 0] [1, 2, 0]))"
  by (simp_all add: dal_keystore_allocate_slot_def dal_keystore_free_slot_id_def
        kzfree_slot_def ex_defs)

theorem allocate_slot_lowest_unused_witness:
  "dal_keystore_allocate_slot K_ex True (Some (ctx_ex 1 [0, 0] [2, 0])) =
     (Some (slot_ex 1), Some (ctx_ex 1 [0, 0] [1, 2, 0])) \<and>
   slot_id (slot_ex 1) = 1 \<and> slot_id (slot_ex 1) \<notin> slot_ids (ctx_ex 1 [0, 0] [2, 0]) \<and>
   slot_id (slot_ex 1) \<le> 3"
proof -
  have run: "dal_keystore_allocate_slot K_ex True (Some (ctx_ex 1 [0, 0] [2, 0])) =
     (Some (slot_ex 1), Some (ctx_ex 1 [0, 0] [1, 2, 0]))"
    by (rule allocate_slot_example(5))
  have three: "(3::int) \<notin> slot_ids (ctx_ex 1 [0, 0] [2, 0])"
    by (simp add: slot_ids_def ctx_ex_def slot_ex_def)
  from allocate_slot_lowest_unused [OF run] three
  have "slot_id (slot_ex 1) \<notin> slot_ids (ctx_ex 1 [0, 0] [2, 0]) \<and> slot_id (slot_ex 1) \<le> 3"
    by (simp add: K_ex_def)
  with run show ?thesis by (simp add: slot_ex_def)
qed

section \<open>What the loops compute\<close>

lemma free_slot_id_loop_None:
  "(free_slot_id_loop xs sid = None) = (sid \<notin> slot_id ` set xs)"
  by (induction xs) (auto split: option.splits)

lemma free_slot_id_loop_Some:
  "free_slot_id_loop xs sid = Some (s, r) \<Longrightarrow>
   \<exists>ys zs. xs = ys @ s # zs \<and> slot_id s = sid \<and> sid \<notin> slot_id ` set ys \<and> r = ys @ zs"
proof (induction xs arbitrary: r)
  case Nil
  then show ?case by simp
next
  case (Cons x xs)
  show ?case
  proof (cases "slot_id x = sid")
    case True
    with Cons.prems have "s = x" "r = xs" by simp_all
    with True have "x # xs = [] @ s # xs \<and> slot_id s = sid \<and> sid \<notin> slot_id ` set [] \<and> r = [] @ xs"
      by simp
    then show ?thesis by blast
  next
    case False
    with Cons.prems obtain r' where r': "free_slot_id_loop xs sid = Some (s, r')" "r = x # r'"
      by (auto split: option.splits)
    from Cons.IH [OF r'(1)] obtain ys zs where
      "xs = ys @ s # zs" "slot_id s = sid" "sid \<notin> slot_id ` set ys" "r' = ys @ zs"
      by blast
    with False r'(2) have "x # xs = (x # ys) @ s # zs \<and> slot_id s = sid \<and>
        sid \<notin> slot_id ` set (x # ys) \<and> r = (x # ys) @ zs"
      by auto
    then show ?thesis by blast
  qed
qed

lemma kzfree_slot_append: "kzfree_slot s fr = fr @ kzfree_slot s []"
  by (simp add: kzfree_slot_def)

lemma kzfree_ctx_append: "kzfree_ctx c fr = fr @ kzfree_ctx c []"
  by (simp add: kzfree_ctx_def split: option.splits)

lemma deinit_slots_loop_eq:
  "deinit_slots_loop xs fr = ([], fr @ concat (map (\<lambda>s. kzfree_slot s []) xs))"
proof (induction xs arbitrary: fr)
  case Nil
  show ?case by simp
next
  case (Cons x xs)
  show ?case
    by (simp add: Cons.IH) (simp add: kzfree_slot_append [of x fr])
qed

lemma deinit_context_struct_Some:
  "deinit_context_struct (Some c) fr =
     (Some (c\<lparr>slots := []\<rparr>), fr @ concat (map (\<lambda>s. kzfree_slot s []) (slots c)))"
  by (simp add: deinit_context_struct_def deinit_slots_loop_eq)

lemma deinit_then_kzfree:
  "(case deinit_context_struct (Some c) fr of (item', fr1) \<Rightarrow> kzfree_ctx item' fr1) =
   fr @ destroy_ctx c"
  by (simp add: deinit_context_struct_Some destroy_ctx_def kzfree_ctx_def)

lemmas destroy_simps = deinit_context_struct_Some destroy_ctx_def kzfree_ctx_def

lemma free_contexts_loop_eq:
  "free_contexts_loop cs fr = ([], fr @ concat (map destroy_ctx cs))"
proof (induction cs arbitrary: fr)
  case Nil
  show ?case by simp
next
  case (Cons c cs)
  show ?case
    by (simp add: destroy_simps Cons.IH)
qed

lemma free_context_ctx_loop_None:
  "(free_context_ctx_loop p cs fr = None) = (p \<notin> ctx_addr ` set cs)"
  by (induction cs) (auto simp: destroy_simps split: option.splits)

lemma free_context_ctx_loop_Some:
  "free_context_ctx_loop p cs fr = Some (r, fr') \<Longrightarrow>
   \<exists>xs c ys. cs = xs @ c # ys \<and> ctx_addr c = p \<and> p \<notin> ctx_addr ` set xs \<and>
     r = xs @ ys \<and> fr' = fr @ destroy_ctx c"
proof (induction cs arbitrary: r)
  case Nil
  then show ?case by simp
next
  case (Cons x cs)
  show ?case
  proof (cases "ctx_addr x = p")
    case True
    with Cons.prems have "r = cs" "fr' = fr @ destroy_ctx x"
      by (simp_all add: destroy_simps)
    with True have "x # cs = [] @ x # cs \<and> ctx_addr x = p \<and> p \<notin> ctx_addr ` set [] \<and>
        r = [] @ cs \<and> fr' = fr @ destroy_ctx x"
      by simp
    then show ?thesis by blast
  next
    case False
    with Cons.prems obtain r' where r': "free_context_ctx_loop p cs fr = Some (r', fr')" "r = x # r'"
      by (auto split: option.splits)
    from Cons.IH [OF r'(1)] obtain xs c ys where
      "cs = xs @ c # ys" "ctx_addr c = p" "p \<notin> ctx_addr ` set xs" "r' = xs @ ys"
      "fr' = fr @ destroy_ctx c"
      by blast
    with False r'(2) have "x # cs = (x # xs) @ c # ys \<and> ctx_addr c = p \<and>
        p \<notin> ctx_addr ` set (x # xs) \<and> r = (x # xs) @ ys \<and> fr' = fr @ destroy_ctx c"
      by auto
    then show ?thesis by blast
  qed
qed

lemma free_context_ticket_loop_None:
  "(free_context_ticket_loop n t cs fr = None) = (\<forall>c\<in>set cs. \<not> memcmp_eq t (client_ticket c) n)"
  by (induction cs) (auto simp: destroy_simps split: option.splits)

lemma free_context_ticket_loop_Some:
  "free_context_ticket_loop n t cs fr = Some (r, fr') \<Longrightarrow>
   \<exists>xs c ys. cs = xs @ c # ys \<and> memcmp_eq t (client_ticket c) n \<and>
     (\<forall>x\<in>set xs. \<not> memcmp_eq t (client_ticket x) n) \<and>
     r = xs @ ys \<and> fr' = fr @ destroy_ctx c"
proof (induction cs arbitrary: r)
  case Nil
  then show ?case by simp
next
  case (Cons x cs)
  show ?case
  proof (cases "memcmp_eq t (client_ticket x) n")
    case True
    with Cons.prems have "r = cs" "fr' = fr @ destroy_ctx x"
      by (simp_all add: destroy_simps)
    with True have "x # cs = [] @ x # cs \<and> memcmp_eq t (client_ticket x) n \<and>
        (\<forall>x\<in>set []. \<not> memcmp_eq t (client_ticket x) n) \<and>
        r = [] @ cs \<and> fr' = fr @ destroy_ctx x"
      by simp
    then show ?thesis by blast
  next
    case False
    with Cons.prems obtain r' where r': "free_context_ticket_loop n t cs fr = Some (r', fr')" "r = x # r'"
      by (auto split: option.splits)
    from Cons.IH [OF r'(1)] obtain xs c ys where
      "cs = xs @ c # ys" "memcmp_eq t (client_ticket c) n"
      "\<forall>x\<in>set xs. \<not> memcmp_eq t (client_ticket x) n" "r' = xs @ ys"
      "fr' = fr @ destroy_ctx c"
      by blast
    with False r'(2) have "x # cs = (x # xs) @ c # ys \<and> memcmp_eq t (client_ticket c) n \<and>
        (\<forall>x\<in>set (x # xs). \<not> memcmp_eq t (client_ticket x) n) \<and> r = (x # xs) @ ys \<and>
        fr' = fr @ destroy_ctx c"
      by auto
    then show ?thesis by blast
  qed
qed

lemma find_context_ticket_loop_None:
  "(find_context_ticket_loop n t cs = None) = (\<forall>c\<in>set cs. \<not> memcmp_eq t (client_ticket c) n)"
  by (induction cs) auto

lemma find_context_ticket_loop_Some:
  "(find_context_ticket_loop n t cs = Some c) =
   (\<exists>xs ys. cs = xs @ c # ys \<and> memcmp_eq t (client_ticket c) n \<and>
      (\<forall>x\<in>set xs. \<not> memcmp_eq t (client_ticket x) n))"
proof (induction cs)
  case Nil
  show ?case by simp
next
  case (Cons x cs)
  show ?case
  proof (cases "memcmp_eq t (client_ticket x) n")
    case True
    have "(\<exists>xs ys. x # cs = xs @ c # ys \<and> memcmp_eq t (client_ticket c) n \<and>
      (\<forall>x\<in>set xs. \<not> memcmp_eq t (client_ticket x) n)) = (x = c)"
    proof
      assume "\<exists>xs ys. x # cs = xs @ c # ys \<and> memcmp_eq t (client_ticket c) n \<and>
        (\<forall>x\<in>set xs. \<not> memcmp_eq t (client_ticket x) n)"
      then obtain xs ys where *: "x # cs = xs @ c # ys"
        "\<forall>x\<in>set xs. \<not> memcmp_eq t (client_ticket x) n" by blast
      with True show "x = c" by (cases xs) auto
    next
      assume "x = c"
      with True have "x # cs = [] @ c # cs \<and> memcmp_eq t (client_ticket c) n \<and>
        (\<forall>x\<in>set []. \<not> memcmp_eq t (client_ticket x) n)" by simp
      then show "\<exists>xs ys. x # cs = xs @ c # ys \<and> memcmp_eq t (client_ticket c) n \<and>
        (\<forall>x\<in>set xs. \<not> memcmp_eq t (client_ticket x) n)" by blast
    qed
    with True show ?thesis by simp
  next
    case False
    have "(\<exists>xs ys. x # cs = xs @ c # ys \<and> memcmp_eq t (client_ticket c) n \<and>
      (\<forall>x\<in>set xs. \<not> memcmp_eq t (client_ticket x) n)) =
      (\<exists>xs ys. cs = xs @ c # ys \<and> memcmp_eq t (client_ticket c) n \<and>
      (\<forall>x\<in>set xs. \<not> memcmp_eq t (client_ticket x) n))" (is "?L = ?R")
    proof
      assume ?L
      then obtain xs ys where *: "x # cs = xs @ c # ys" "memcmp_eq t (client_ticket c) n"
        "\<forall>x\<in>set xs. \<not> memcmp_eq t (client_ticket x) n" by blast
      with False obtain xs' where "xs = x # xs'" by (cases xs) auto
      with * have "cs = xs' @ c # ys \<and> memcmp_eq t (client_ticket c) n \<and>
        (\<forall>x\<in>set xs'. \<not> memcmp_eq t (client_ticket x) n)" by simp
      then show ?R by blast
    next
      assume ?R
      then obtain xs ys where "cs = xs @ c # ys" "memcmp_eq t (client_ticket c) n"
        "\<forall>x\<in>set xs. \<not> memcmp_eq t (client_ticket x) n" by blast
      with False have "x # cs = (x # xs) @ c # ys \<and> memcmp_eq t (client_ticket c) n \<and>
        (\<forall>x\<in>set (x # xs). \<not> memcmp_eq t (client_ticket x) n)" by simp
      then show ?L by blast
    qed
    with False Cons.IH show ?thesis by simp
  qed
qed

lemma count_contexts_loop_eq: "count_contexts_loop cs cnt = cnt + of_nat (length cs)"
  by (induction cs arbitrary: cnt) simp_all

lemma allocate_context_eq:
  "dal_keystore_allocate_context K kz st =
     (if (of_nat (length (dal_contexts st)) :: 32 word) < DAL_KEYSTORE_CLIENTS_MAX K then
        (case kz of
           None \<Rightarrow> (None, st)
         | Some a \<Rightarrow> (Some (kzalloc_ctx K a), st\<lparr>dal_contexts := kzalloc_ctx K a # dal_contexts st\<rparr>))
      else (None, st))"
  by (simp add: dal_keystore_allocate_context_def count_contexts_loop_eq init_context_struct_def
        kzalloc_ctx_def split: option.splits)

lemma count_below_max:
  fixes M :: "32 word"
  assumes "n \<le> unat M"
  shows "((of_nat n :: 32 word) < M) = (n < unat M)"
proof -
  from assms have "unat (of_nat n :: 32 word) = n"
    by (rule le_unat_uoi)
  then show ?thesis by (simp add: word_less_nat_alt)
qed

section \<open>Every call keeps the slot ids in order\<close>

lemma allocate_slot_cases:
  assumes "dal_keystore_allocate_slot K kz (Some c) = (r, c')"
  shows "(r = None \<and> c' = Some c) \<or>
         (\<exists>s. r = Some s \<and> c' = Some (c\<lparr>slots := s # slots c\<rparr>) \<and> 0 \<le> slot_id s \<and>
              slot_id s < DAL_KEYSTORE_SLOTS_MAX K \<and> slot_id s \<notin> slot_id ` set (slots c))"
proof (cases r)
  case None
  with assms show ?thesis
    by (auto simp: dal_keystore_allocate_slot_def Let_def split: if_splits)
next
  case (Some s)
  let ?i = "lowest_unused_loop K c 0"
  from assms Some have lt: "?i < DAL_KEYSTORE_SLOTS_MAX K"
    and s: "s = (kzalloc_slot K)\<lparr>slot_id := ?i\<rparr>"
    and c': "c' = Some (c\<lparr>slots := s # slots c\<rparr>)"
    by (auto simp: dal_keystore_allocate_slot_def Let_def split: if_splits)
  from s have id: "slot_id s = ?i" by simp
  have "0 \<le> ?i" by (rule lowest_unused_loop_ge)
  moreover have "?i \<notin> slot_id ` set (slots c)"
    using lt by (rule lowest_unused_loop_unused) simp
  ultimately show ?thesis using Some lt id c' by simp
qed

lemma free_slot_id_cases:
  assumes "dal_keystore_free_slot_id K (Some c) sid fr = (r, c', fr')"
  shows "(r \<noteq> 0 \<and> c' = Some c \<and> fr' = fr) \<or>
         (r = 0 \<and> 0 \<le> sid \<and> sid < DAL_KEYSTORE_SLOTS_MAX K \<and>
          (\<exists>ys s zs. slots c = ys @ s # zs \<and> slot_id s = sid \<and> sid \<notin> slot_id ` set ys \<and>
             c' = Some (c\<lparr>slots := ys @ zs\<rparr>) \<and> fr' = fr @ kzfree_slot s []))"
proof (cases "free_slot_id_loop (slots c) sid")
  case None
  with assms show ?thesis
    by (auto simp: dal_keystore_free_slot_id_def EINVAL_def split: if_splits)
next
  case (Some a)
  obtain s rest where a: "a = (s, rest)" by (cases a)
  from free_slot_id_loop_Some [OF Some [unfolded a]] obtain ys zs where
    split: "slots c = ys @ s # zs" "slot_id s = sid" "sid \<notin> slot_id ` set ys" "rest = ys @ zs"
    by blast
  show ?thesis
  proof (cases "sid < 0 \<or> sid \<ge> DAL_KEYSTORE_SLOTS_MAX K")
    case True
    with assms show ?thesis
      by (auto simp: dal_keystore_free_slot_id_def EINVAL_def)
  next
    case False
    with assms Some a have "r = 0" "c' = Some (c\<lparr>slots := rest\<rparr>)" "fr' = kzfree_slot s fr"
      by (auto simp: dal_keystore_free_slot_id_def)
    with split False kzfree_slot_append [of s fr] show ?thesis by auto
  qed
qed

lemma ctx_at_Some: "ctx_at a cs = Some c \<Longrightarrow> c \<in> set cs \<and> ctx_addr c = a"
  by (induction cs) (auto split: if_splits)

lemma list_all_ctx_store: "list_all P cs \<Longrightarrow> P c' \<Longrightarrow> list_all P (ctx_store c' cs)"
  by (induction cs) auto

lemma length_ctx_store: "length (ctx_store c' cs) = length cs"
  by (induction cs) auto

lemma map_slot_id_write_key:
  "j < length xs \<Longrightarrow>
   map slot_id (xs[j := (xs ! j)\<lparr>wrapped_key_size := n, wrapped_key := k\<rparr>]) = map slot_id xs"
  by (simp add: map_update list_update_same_conv)

text \<open>
  A property of the list of slot ids that holds of the empty list, survives the insertion
  at the head of a valid id that is not in the list, and survives the removal of an
  element, holds of every context after a call if it held of every context before.
\<close>

lemma do_call_ids:
  assumes Q: "list_all (\<lambda>c. Q (map slot_id (slots c))) (dal_contexts st)"
    and call: "do_call K x st = Some st'"
    and empty: "Q []"
    and ins: "\<And>i ids. Q ids \<Longrightarrow> 0 \<le> i \<Longrightarrow> i < DAL_KEYSTORE_SLOTS_MAX K \<Longrightarrow> i \<notin> set ids \<Longrightarrow>
                Q (i # ids)"
    and del: "\<And>i ys zs. Q (ys @ i # zs) \<Longrightarrow> Q (ys @ zs)"
  shows "list_all (\<lambda>c. Q (map slot_id (slots c))) (dal_contexts st')"
proof (cases x)
  case (Allocate_context kz)
  with call Q empty show ?thesis
    by (auto simp: allocate_context_eq kzalloc_ctx_def split: option.splits if_splits)
next
  case (Free_context_ctx p)
  show ?thesis
  proof (cases "fst (dal_keystore_free_context_ctx p st) = 0")
    case True
    then obtain pa cs fr where "free_context_ctx_loop pa (dal_contexts st) (freed st) = Some (cs, fr)"
      and st': "dal_contexts st' = cs"
      using call Free_context_ctx
      by (auto simp: dal_keystore_free_context_ctx_def EFAULT_def EINVAL_def split: option.splits)
    from free_context_ctx_loop_Some [OF this(1)] obtain xs c ys where
      "dal_contexts st = xs @ c # ys" "cs = xs @ ys" by blast
    with Q st' show ?thesis by simp
  next
    case False
    with call Free_context_ctx have "st' = st"
      by (auto simp: dal_keystore_free_context_ctx_def split: option.splits)
    with Q show ?thesis by simp
  qed
next
  case (Free_context_ticket t)
  show ?thesis
  proof (cases "fst (dal_keystore_free_context_ticket K t st) = 0")
    case True
    then obtain n ta cs fr where "free_context_ticket_loop n ta (dal_contexts st) (freed st) = Some (cs, fr)"
      and st': "dal_contexts st' = cs"
      using call Free_context_ticket
      by (auto simp: dal_keystore_free_context_ticket_def EFAULT_def EINVAL_def split: option.splits)
    from free_context_ticket_loop_Some [OF this(1)] obtain xs c ys where
      "dal_contexts st = xs @ c # ys" "cs = xs @ ys" by blast
    with Q st' show ?thesis by simp
  next
    case False
    with call Free_context_ticket have "st' = st"
      by (auto simp: dal_keystore_free_context_ticket_def split: option.splits)
    with Q show ?thesis by simp
  qed
next
  case Free_contexts
  with call show ?thesis
    by (auto simp: dal_keystore_free_contexts_def free_contexts_loop_eq)
next
  case (Allocate_slot p kz)
  show ?thesis
  proof (cases p)
    case None
    with call Allocate_slot Q show ?thesis by simp
  next
    case (Some a)
    with call Allocate_slot obtain c where c: "ctx_at a (dal_contexts st) = Some c"
      by (auto split: option.splits)
    then have "c \<in> set (dal_contexts st)" by (simp add: ctx_at_Some)
    with Q have Qc: "Q (map slot_id (slots c))" by (simp add: list_all_iff)
    obtain r c' where res: "dal_keystore_allocate_slot K kz (Some c) = (r, c')"
      by (cases "dal_keystore_allocate_slot K kz (Some c)")
    from allocate_slot_cases [OF res] show ?thesis
    proof
      assume "r = None \<and> c' = Some c"
      with call Allocate_slot Some c res have "dal_contexts st' = ctx_store c (dal_contexts st)"
        by auto
      with Q Qc show ?thesis by (simp add: list_all_ctx_store)
    next
      assume "\<exists>s. r = Some s \<and> c' = Some (c\<lparr>slots := s # slots c\<rparr>) \<and> 0 \<le> slot_id s \<and>
              slot_id s < DAL_KEYSTORE_SLOTS_MAX K \<and> slot_id s \<notin> slot_id ` set (slots c)"
      then obtain s where s: "c' = Some (c\<lparr>slots := s # slots c\<rparr>)" "0 \<le> slot_id s"
        "slot_id s < DAL_KEYSTORE_SLOTS_MAX K" "slot_id s \<notin> slot_id ` set (slots c)"
        by blast
      from ins [OF Qc s(2,3)] s(4) have "Q (map slot_id (slots (c\<lparr>slots := s # slots c\<rparr>)))"
        by simp
      moreover from call Allocate_slot Some c res s(1)
      have "dal_contexts st' = ctx_store (c\<lparr>slots := s # slots c\<rparr>) (dal_contexts st)"
        by auto
      ultimately show ?thesis using Q by (simp add: list_all_ctx_store)
    qed
  qed
next
  case (Free_slot_id p sid)
  show ?thesis
  proof (cases p)
    case None
    with call Free_slot_id Q show ?thesis by simp
  next
    case (Some a)
    with call Free_slot_id obtain c where c: "ctx_at a (dal_contexts st) = Some c"
      by (auto split: option.splits)
    then have "c \<in> set (dal_contexts st)" by (simp add: ctx_at_Some)
    with Q have Qc: "Q (map slot_id (slots c))" by (simp add: list_all_iff)
    obtain r c' fr' where res: "dal_keystore_free_slot_id K (Some c) sid (freed st) = (r, c', fr')"
      by (cases "dal_keystore_free_slot_id K (Some c) sid (freed st)")
    from free_slot_id_cases [OF res] show ?thesis
    proof
      assume "r \<noteq> 0 \<and> c' = Some c \<and> fr' = freed st"
      with call Free_slot_id Some c res have "dal_contexts st' = ctx_store c (dal_contexts st)"
        by auto
      with Q Qc show ?thesis by (simp add: list_all_ctx_store)
    next
      assume "r = 0 \<and> 0 \<le> sid \<and> sid < DAL_KEYSTORE_SLOTS_MAX K \<and>
          (\<exists>ys s zs. slots c = ys @ s # zs \<and> slot_id s = sid \<and> sid \<notin> slot_id ` set ys \<and>
             c' = Some (c\<lparr>slots := ys @ zs\<rparr>) \<and> fr' = freed st @ kzfree_slot s [])"
      then obtain ys s zs where s: "slots c = ys @ s # zs" "c' = Some (c\<lparr>slots := ys @ zs\<rparr>)"
        by blast
      from Qc s(1) have "Q (map slot_id ys @ slot_id s # map slot_id zs)" by simp
      from del [OF this] have "Q (map slot_id (slots (c\<lparr>slots := ys @ zs\<rparr>)))" by simp
      moreover from call Free_slot_id Some c res s(2)
      have "dal_contexts st' = ctx_store (c\<lparr>slots := ys @ zs\<rparr>) (dal_contexts st)"
        by auto
      ultimately show ?thesis using Q by (simp add: list_all_ctx_store)
    qed
  qed
next
  case (Write_ticket a t)
  with call obtain c where c: "ctx_at a (dal_contexts st) = Some c"
    and st': "dal_contexts st' = ctx_store (c\<lparr>client_ticket := t\<rparr>) (dal_contexts st)"
    by (auto split: option.splits if_splits)
  from c have "c \<in> set (dal_contexts st)" by (simp add: ctx_at_Some)
  with Q have "Q (map slot_id (slots (c\<lparr>client_ticket := t\<rparr>)))" by (simp add: list_all_iff)
  with Q st' show ?thesis by (simp add: list_all_ctx_store)
next
  case (Write_key a j key n)
  with call obtain c where c: "ctx_at a (dal_contexts st) = Some c" and j: "j < length (slots c)"
    and st': "dal_contexts st' =
      ctx_store (c\<lparr>slots := (slots c)[j := (slots c ! j)\<lparr>wrapped_key_size := n,
         wrapped_key := key\<rparr>]\<rparr>) (dal_contexts st)"
    by (auto split: option.splits if_splits)
  from c have "c \<in> set (dal_contexts st)" by (simp add: ctx_at_Some)
  with Q j have "Q (map slot_id (slots (c\<lparr>slots := (slots c)[j := (slots c ! j)\<lparr>wrapped_key_size := n,
         wrapped_key := key\<rparr>]\<rparr>)))"
    by (simp add: list_all_iff map_slot_id_write_key)
  with Q st' show ?thesis by (simp add: list_all_ctx_store)
qed

section \<open>Capacity limits and uniqueness of slot ids\<close>

lemma do_call_length:
  assumes len: "length (dal_contexts st) \<le> unat (DAL_KEYSTORE_CLIENTS_MAX K)"
    and call: "do_call K x st = Some st'"
  shows "length (dal_contexts st') \<le> unat (DAL_KEYSTORE_CLIENTS_MAX K)"
proof (cases x)
  case (Allocate_context kz)
  with call len show ?thesis
    by (auto simp: allocate_context_eq count_below_max split: option.splits if_splits)
next
  case (Free_context_ctx p)
  have "length (dal_contexts (snd (dal_keystore_free_context_ctx p st))) \<le> length (dal_contexts st)"
    by (auto simp: dal_keystore_free_context_ctx_def split: option.splits
             dest!: free_context_ctx_loop_Some)
  with call len Free_context_ctx show ?thesis by auto
next
  case (Free_context_ticket t)
  have "length (dal_contexts (snd (dal_keystore_free_context_ticket K t st)))
          \<le> length (dal_contexts st)"
    by (auto simp: dal_keystore_free_context_ticket_def split: option.splits
             dest!: free_context_ticket_loop_Some)
  with call len Free_context_ticket show ?thesis by auto
next
  case Free_contexts
  with call show ?thesis
    by (auto simp: dal_keystore_free_contexts_def free_contexts_loop_eq)
next
  case (Allocate_slot p kz)
  with call len show ?thesis
    by (auto simp: length_ctx_store split: option.splits)
next
  case (Free_slot_id p sid)
  with call len show ?thesis
    by (auto simp: length_ctx_store split: option.splits prod.splits)
next
  case (Write_ticket a t)
  with call len show ?thesis
    by (auto simp: length_ctx_store split: option.splits if_splits)
next
  case (Write_key a j key n)
  with call len show ?thesis
    by (auto simp: length_ctx_store split: option.splits if_splits)
qed

lemma registry_wf_do_call:
  assumes "registry_wf K st" and "do_call K x st = Some st'"
  shows "registry_wf K st'"
proof -
  let ?Q = "\<lambda>ids. distinct ids \<and> set ids \<subseteq> {0..<DAL_KEYSTORE_SLOTS_MAX K}"
  from assms(1) have "list_all (\<lambda>c. ?Q (map slot_id (slots c))) (dal_contexts st)"
    by (simp add: registry_wf_def list_all_iff slots_wf_def slot_ids_def)
  then have "list_all (\<lambda>c. ?Q (map slot_id (slots c))) (dal_contexts st')"
    using assms(2) by (rule do_call_ids) auto
  moreover from assms have "length (dal_contexts st') \<le> unat (DAL_KEYSTORE_CLIENTS_MAX K)"
    by (auto simp: registry_wf_def intro: do_call_length)
  ultimately show ?thesis by (simp add: registry_wf_def list_all_iff slots_wf_def slot_ids_def)
qed

lemma registry_wf_run:
  "registry_wf K st \<Longrightarrow> run K calls st = Some st' \<Longrightarrow> registry_wf K st'"
proof (induction calls arbitrary: st)
  case Nil
  then show ?case by simp
next
  case (Cons x calls)
  from Cons.prems(2) obtain st1 where step: "do_call K x st = Some st1"
    and rest: "run K calls st1 = Some st'"
    by (auto split: option.splits)
  from Cons.prems(1) step have "registry_wf K st1" by (rule registry_wf_do_call)
  then show ?case using rest by (rule Cons.IH)
qed

lemma registry_wf_init: "registry_wf K keystore_init"
  by (simp add: registry_wf_def keystore_init_def)

lemma slots_wf_length:
  assumes "slots_wf K c"
  shows "length (slots c) \<le> nat (DAL_KEYSTORE_SLOTS_MAX K)"
proof -
  from assms have "card (slot_ids c) = length (slots c)"
    using distinct_card [of "map slot_id (slots c)"] by (simp add: slots_wf_def slot_ids_def)
  moreover from assms have "card (slot_ids c) \<le> card {0..<DAL_KEYSTORE_SLOTS_MAX K}"
    by (intro card_mono) (simp_all add: slots_wf_def)
  ultimately show ?thesis by simp
qed

lemma slots_wf_full:
  assumes wf: "slots_wf K c" and full: "length (slots c) = nat (DAL_KEYSTORE_SLOTS_MAX K)"
  shows "dal_keystore_allocate_slot K kz (Some c) = (None, Some c)"
proof -
  from wf have "card (slot_ids c) = length (slots c)"
    using distinct_card [of "map slot_id (slots c)"] by (simp add: slots_wf_def slot_ids_def)
  with full have "card (slot_ids c) = card {0..<DAL_KEYSTORE_SLOTS_MAX K}" by simp
  with wf have all: "slot_ids c = {0..<DAL_KEYSTORE_SLOTS_MAX K}"
    by (intro card_subset_eq) (simp_all add: slots_wf_def)
  let ?i = "lowest_unused_loop K c 0"
  have "\<not> ?i < DAL_KEYSTORE_SLOTS_MAX K"
  proof
    assume lt: "?i < DAL_KEYSTORE_SLOTS_MAX K"
    then have "?i \<notin> slot_id ` set (slots c)" by (rule lowest_unused_loop_unused) simp
    moreover have "0 \<le> ?i" by (rule lowest_unused_loop_ge)
    ultimately show False using lt all by (simp add: slot_ids_def)
  qed
  then show ?thesis by (simp add: dal_keystore_allocate_slot_def Let_def)
qed

text \<open>
  C2. In every state that a sequence of calls reaches from the empty registry, the
  registry holds at most \<open>DAL_KEYSTORE_CLIENTS_MAX\<close> contexts and every context at most
  \<open>DAL_KEYSTORE_SLOTS_MAX\<close> slots. When the registry is full,
  \<open>dal_keystore_allocate_context\<close> returns \<open>NULL\<close> and leaves the state as it is; when
  a context is full, \<open>dal_keystore_allocate_slot\<close> on it returns \<open>NULL\<close> and leaves the
  context as it is. The functions return pointers, so \<open>NULL\<close> is how they report that
  the capacity is exceeded.
\<close>

theorem capacity_bounds:
  assumes "run K calls keystore_init = Some st"
  shows "length (dal_contexts st) \<le> unat (DAL_KEYSTORE_CLIENTS_MAX K) \<and>
         (\<forall>c\<in>set (dal_contexts st). length (slots c) \<le> nat (DAL_KEYSTORE_SLOTS_MAX K)) \<and>
         (length (dal_contexts st) = unat (DAL_KEYSTORE_CLIENTS_MAX K) \<longrightarrow>
            dal_keystore_allocate_context K kz st = (None, st)) \<and>
         (\<forall>c\<in>set (dal_contexts st). length (slots c) = nat (DAL_KEYSTORE_SLOTS_MAX K) \<longrightarrow>
            dal_keystore_allocate_slot K kz' (Some c) = (None, Some c))"
proof -
  from registry_wf_init assms have wf: "registry_wf K st" by (rule registry_wf_run)
  then have len: "length (dal_contexts st) \<le> unat (DAL_KEYSTORE_CLIENTS_MAX K)"
    and slots: "\<And>c. c \<in> set (dal_contexts st) \<Longrightarrow> slots_wf K c"
    by (simp_all add: registry_wf_def list_all_iff)
  have "dal_keystore_allocate_context K kz st = (None, st)"
    if "length (dal_contexts st) = unat (DAL_KEYSTORE_CLIENTS_MAX K)"
    using that len by (simp add: allocate_context_eq count_below_max)
  with len slots show ?thesis
    by (auto intro: slots_wf_length slots_wf_full)
qed

lemma do_call_distinct:
  assumes "list_all (\<lambda>c. distinct (map slot_id (slots c))) (dal_contexts st)"
    and "do_call K x st = Some st'"
  shows "list_all (\<lambda>c. distinct (map slot_id (slots c))) (dal_contexts st')"
  using assms by (rule do_call_ids) auto

text \<open>
  C4. In every state that a sequence of calls reaches from the empty registry, the slot
  ids of each live context are pairwise different; and every call (allocation and
  release of slots and contexts, writes of the caller) takes a state with this property
  to a state with this property.
\<close>

theorem slot_ids_unique:
  "(run K calls keystore_init = Some st \<longrightarrow>
      (\<forall>c\<in>set (dal_contexts st). distinct (map slot_id (slots c)))) \<and>
   ((\<forall>c\<in>set (dal_contexts st0). distinct (map slot_id (slots c))) \<and>
    do_call K x st0 = Some st1 \<longrightarrow>
      (\<forall>c\<in>set (dal_contexts st1). distinct (map slot_id (slots c))))"
proof -
  have run: "list_all (\<lambda>c. distinct (map slot_id (slots c))) (dal_contexts s')"
    if "list_all (\<lambda>c. distinct (map slot_id (slots c))) (dal_contexts s)"
      and "run K cs s = Some s'" for cs s s'
    using that
  proof (induction cs arbitrary: s)
    case Nil
    then show ?case by simp
  next
    case (Cons y cs)
    from Cons.prems(2) obtain s1 where step: "do_call K y s = Some s1"
      and rest: "run K cs s1 = Some s'"
      by (auto split: option.splits)
    from Cons.prems(1) step
    have "list_all (\<lambda>c. distinct (map slot_id (slots c))) (dal_contexts s1)"
      by (rule do_call_distinct)
    then show ?case using rest by (rule Cons.IH)
  qed
  have "list_all (\<lambda>c. distinct (map slot_id (slots c))) (dal_contexts keystore_init)"
    by (simp add: keystore_init_def)
  from run [OF this] do_call_distinct [of st0 K x st1] show ?thesis
    by (auto simp: list_all_iff)
qed


lemmas call_defs =
  dal_keystore_allocate_context_def dal_keystore_allocate_slot_def dal_keystore_free_slot_id_def
  dal_keystore_free_context_ctx_def dal_keystore_free_context_ticket_def
  dal_keystore_free_contexts_def dal_keystore_find_context_ticket_def
  init_context_struct_def deinit_context_struct_def kzfree_slot_def kzfree_ctx_def memcmp_eq_def
  keystore_init_def EFAULT_def EINVAL_def

lemma run_calls_full: "run K_ex calls_full keystore_init = Some st_full"
  by (simp add: calls_full_def st_full_def call_defs ex_defs)

lemma do_call_st_full: "do_call K_ex (Free_slot_id (Some 1) 2) st_full = Some st_freed"
  by (simp add: st_full_def st_freed_def call_defs ex_defs)

theorem capacity_bounds_witness:
  "run K_ex calls_full keystore_init = Some st_full \<and>
   length (dal_contexts st_full) = 2 \<and>
   dal_keystore_allocate_context K_ex (Some 3) st_full = (None, st_full) \<and>
   length (slots (ctx_ex 1 [0, 0] [3, 2, 1, 0])) = 4 \<and>
   dal_keystore_allocate_slot K_ex True (Some (ctx_ex 1 [0, 0] [3, 2, 1, 0])) =
     (None, Some (ctx_ex 1 [0, 0] [3, 2, 1, 0]))"
  using capacity_bounds [OF run_calls_full, of "Some 3" True] run_calls_full
  by (simp add: st_full_def K_ex_def ctx_ex_def)

theorem slot_ids_unique_witness:
  "run K_ex calls_full keystore_init = Some st_full \<and>
   do_call K_ex (Free_slot_id (Some 1) 2) st_full = Some st_freed \<and>
   distinct (map slot_id (slots (ctx_ex 1 [0, 0] [3, 2, 1, 0]))) \<and>
   distinct (map slot_id (slots (ctx_ex 1 [0, 0] [3, 1, 0])))"
proof -
  from slot_ids_unique [of K_ex calls_full st_full st_full "Free_slot_id (Some 1) 2" st_freed]
    run_calls_full do_call_st_full
  have all: "\<forall>c\<in>set (dal_contexts st_full). distinct (map slot_id (slots c))"
    "\<forall>c\<in>set (dal_contexts st_freed). distinct (map slot_id (slots c))"
    by blast+
  have "ctx_ex 1 [0, 0] [3, 2, 1, 0] \<in> set (dal_contexts st_full)"
    "ctx_ex 1 [0, 0] [3, 1, 0] \<in> set (dal_contexts st_freed)"
    by (simp_all add: st_full_def st_freed_def)
  with all run_calls_full do_call_st_full show ?thesis by blast
qed

section \<open>Secure erase of released memory\<close>

lemma zero_filled_kzfree_slot: "list_all zero_filled (kzfree_slot s [])"
  by (simp add: kzfree_slot_def zero_filled_def)

lemma zero_filled_destroy_ctx: "list_all zero_filled (destroy_ctx c)"
  by (simp add: destroy_ctx_def kzfree_ctx_def kzfree_slot_def zero_filled_def list_all_iff)

lemma freed_slots_concat:
  "length (filter is_freed_slot (concat (map (\<lambda>s. kzfree_slot s []) xs))) = length xs"
  by (induction xs) (simp_all add: kzfree_slot_def)

lemma freed_slots_destroy_ctx:
  "length (filter is_freed_slot (destroy_ctx c)) = length (slots c)"
  by (simp add: destroy_ctx_def kzfree_ctx_def freed_slots_concat)

lemma freed_slots_destroy_all:
  "length (filter is_freed_slot (concat (map destroy_ctx cs))) = slot_count cs"
  by (induction cs) (simp_all add: slot_count_def freed_slots_destroy_ctx)

lemma zero_filled_destroy_all: "list_all zero_filled (concat (map destroy_ctx cs))"
  by (induction cs) (simp_all add: zero_filled_destroy_ctx)

lemma live_slots_eq: "live_slots st = slot_count (dal_contexts st)"
  by (simp add: live_slots_def slot_count_def)

lemma slot_count_ctx_store:
  "ctx_at a cs = Some c \<Longrightarrow> ctx_addr c' = a \<Longrightarrow>
   slot_count (ctx_store c' cs) + length (slots c) = slot_count cs + length (slots c')"
  by (induction cs) (auto simp: slot_count_def split: if_splits)

lemma slot_count_remove:
  "slot_count (xs @ c # ys) = slot_count (xs @ ys) + length (slots c)"
  by (simp add: slot_count_def)

text \<open>What a call appends to the record of released memory.\<close>

lemma do_call_freed:
  assumes call: "do_call K x st = Some st'"
  shows "\<exists>zs. freed st' = freed st @ zs \<and> list_all zero_filled zs \<and>
              length (filter is_freed_slot zs) = live_slots st - live_slots st'"
proof -
  have none: ?thesis if "freed st' = freed st" "live_slots st \<le> live_slots st'"
  proof -
    from that have "freed st' = freed st @ [] \<and> list_all zero_filled [] \<and>
        length (filter is_freed_slot []) = live_slots st - live_slots st'"
      by simp
    then show ?thesis by blast
  qed
  have destroyed: ?thesis
    if "dal_contexts st = xs @ c # ys" "dal_contexts st' = xs @ ys"
      "freed st' = freed st @ destroy_ctx c" for xs c ys
  proof -
    from that have "freed st' = freed st @ destroy_ctx c \<and> list_all zero_filled (destroy_ctx c) \<and>
        length (filter is_freed_slot (destroy_ctx c)) = live_slots st - live_slots st'"
      by (simp add: zero_filled_destroy_ctx freed_slots_destroy_ctx live_slots_eq slot_count_remove)
    then show ?thesis by blast
  qed
  show ?thesis
  proof (cases x)
    case (Allocate_context kz)
    with call show ?thesis
      by (intro none)
         (auto simp: allocate_context_eq live_slots_eq slot_count_def kzalloc_ctx_def
               split: option.splits if_splits)
  next
    case (Free_context_ctx p)
    show ?thesis
    proof (cases "fst (dal_keystore_free_context_ctx p st) = 0")
      case True
      then obtain pa cs fr where
        loop: "free_context_ctx_loop pa (dal_contexts st) (freed st) = Some (cs, fr)"
        and st': "dal_contexts st' = cs" "freed st' = fr"
        using call Free_context_ctx
        by (auto simp: dal_keystore_free_context_ctx_def EFAULT_def EINVAL_def
                 split: option.splits)
      from free_context_ctx_loop_Some [OF loop] obtain xs c ys where
        "dal_contexts st = xs @ c # ys" "cs = xs @ ys" "fr = freed st @ destroy_ctx c" by blast
      with st' show ?thesis by (intro destroyed) simp_all
    next
      case False
      with call Free_context_ctx have "st' = st"
        by (auto simp: dal_keystore_free_context_ctx_def split: option.splits)
      then show ?thesis by (intro none) simp_all
    qed
  next
    case (Free_context_ticket t)
    show ?thesis
    proof (cases "fst (dal_keystore_free_context_ticket K t st) = 0")
      case True
      then obtain n ta cs fr where
        loop: "free_context_ticket_loop n ta (dal_contexts st) (freed st) = Some (cs, fr)"
        and st': "dal_contexts st' = cs" "freed st' = fr"
        using call Free_context_ticket
        by (auto simp: dal_keystore_free_context_ticket_def EFAULT_def EINVAL_def
                 split: option.splits)
      from free_context_ticket_loop_Some [OF loop] obtain xs c ys where
        "dal_contexts st = xs @ c # ys" "cs = xs @ ys" "fr = freed st @ destroy_ctx c" by blast
      with st' show ?thesis by (intro destroyed) simp_all
    next
      case False
      with call Free_context_ticket have "st' = st"
        by (auto simp: dal_keystore_free_context_ticket_def split: option.splits)
      then show ?thesis by (intro none) simp_all
    qed
  next
    case Free_contexts
    with call have "freed st' = freed st @ concat (map destroy_ctx (dal_contexts st)) \<and>
        list_all zero_filled (concat (map destroy_ctx (dal_contexts st))) \<and>
        length (filter is_freed_slot (concat (map destroy_ctx (dal_contexts st)))) =
          live_slots st - live_slots st'"
      by (auto simp: dal_keystore_free_contexts_def free_contexts_loop_eq zero_filled_destroy_all
            freed_slots_destroy_all live_slots_eq slot_count_def)
    then show ?thesis by blast
  next
    case (Allocate_slot p kz)
    show ?thesis
    proof (cases p)
      case None
      with call Allocate_slot show ?thesis by (intro none) simp_all
    next
      case (Some a)
      with call Allocate_slot obtain c where c: "ctx_at a (dal_contexts st) = Some c"
        by (auto split: option.splits)
      obtain r c' where res: "dal_keystore_allocate_slot K kz (Some c) = (r, c')"
        by (cases "dal_keystore_allocate_slot K kz (Some c)")
      from allocate_slot_cases [OF res] obtain c1 where c1: "c' = Some c1"
        "ctx_addr c1 = ctx_addr c" "length (slots c) \<le> length (slots c1)"
        by auto
      with call Allocate_slot Some c res
      have st': "dal_contexts st' = ctx_store c1 (dal_contexts st)" "freed st' = freed st"
        by auto
      from c have "ctx_addr c = a" by (simp add: ctx_at_Some)
      with slot_count_ctx_store [OF c, of c1] c1 st' show ?thesis
        by (intro none) (simp_all add: live_slots_eq)
    qed
  next
    case (Free_slot_id p sid)
    show ?thesis
    proof (cases p)
      case None
      with call Free_slot_id show ?thesis by (intro none) simp_all
    next
      case (Some a)
      with call Free_slot_id obtain c where c: "ctx_at a (dal_contexts st) = Some c"
        by (auto split: option.splits)
      then have a: "ctx_addr c = a" by (simp add: ctx_at_Some)
      obtain r c' fr' where
        res: "dal_keystore_free_slot_id K (Some c) sid (freed st) = (r, c', fr')"
        by (cases "dal_keystore_free_slot_id K (Some c) sid (freed st)")
      from free_slot_id_cases [OF res] show ?thesis
      proof
        assume "r \<noteq> 0 \<and> c' = Some c \<and> fr' = freed st"
        with call Free_slot_id Some c res
        have st': "dal_contexts st' = ctx_store c (dal_contexts st)" "freed st' = freed st"
          by auto
        with slot_count_ctx_store [OF c, of c] a show ?thesis
          by (intro none) (simp_all add: live_slots_eq)
      next
        assume "r = 0 \<and> 0 \<le> sid \<and> sid < DAL_KEYSTORE_SLOTS_MAX K \<and>
          (\<exists>ys s zs. slots c = ys @ s # zs \<and> slot_id s = sid \<and> sid \<notin> slot_id ` set ys \<and>
             c' = Some (c\<lparr>slots := ys @ zs\<rparr>) \<and> fr' = freed st @ kzfree_slot s [])"
        then obtain ys s zs where s: "slots c = ys @ s # zs"
          "c' = Some (c\<lparr>slots := ys @ zs\<rparr>)" "fr' = freed st @ kzfree_slot s []"
          by blast
        with call Free_slot_id Some c res
        have st': "dal_contexts st' = ctx_store (c\<lparr>slots := ys @ zs\<rparr>) (dal_contexts st)"
          "freed st' = freed st @ kzfree_slot s []"
          by auto
        from slot_count_ctx_store [OF c, of "c\<lparr>slots := ys @ zs\<rparr>"] a s(1) st'(1)
        have "live_slots st = live_slots st' + 1"
          by (simp add: live_slots_eq)
        with st'(2) have "freed st' = freed st @ kzfree_slot s [] \<and>
            list_all zero_filled (kzfree_slot s []) \<and>
            length (filter is_freed_slot (kzfree_slot s [])) = live_slots st - live_slots st'"
          by (simp add: zero_filled_kzfree_slot) (simp add: kzfree_slot_def)
        then show ?thesis by blast
      qed
    qed
  next
    case (Write_ticket a t)
    with call obtain c where c: "ctx_at a (dal_contexts st) = Some c"
      and st': "dal_contexts st' = ctx_store (c\<lparr>client_ticket := t\<rparr>) (dal_contexts st)"
        "freed st' = freed st"
      by (auto split: option.splits if_splits)
    from c have "ctx_addr c = a" by (simp add: ctx_at_Some)
    with slot_count_ctx_store [OF c, of "c\<lparr>client_ticket := t\<rparr>"] st' show ?thesis
      by (intro none) (simp_all add: live_slots_eq)
  next
    case (Write_key a j key n)
    with call obtain c where c: "ctx_at a (dal_contexts st) = Some c"
      and st': "dal_contexts st' =
        ctx_store (c\<lparr>slots := (slots c)[j := (slots c ! j)\<lparr>wrapped_key_size := n,
           wrapped_key := key\<rparr>]\<rparr>) (dal_contexts st)" "freed st' = freed st"
      by (auto split: option.splits if_splits)
    from c have "ctx_addr c = a" by (simp add: ctx_at_Some)
    with slot_count_ctx_store [OF c, of "c\<lparr>slots := (slots c)[j := (slots c ! j)\<lparr>wrapped_key_size := n,
           wrapped_key := key\<rparr>]\<rparr>"] st' show ?thesis
      by (intro none) (simp_all add: live_slots_eq)
  qed
qed

lemma run_freed:
  "list_all zero_filled (freed st) \<Longrightarrow> run K calls st = Some st' \<Longrightarrow>
   list_all zero_filled (freed st')"
proof (induction calls arbitrary: st)
  case Nil
  then show ?case by simp
next
  case (Cons x calls)
  from Cons.prems(2) obtain st1 where step: "do_call K x st = Some st1"
    and rest: "run K calls st1 = Some st'"
    by (auto split: option.splits)
  from do_call_freed [OF step] Cons.prems(1) have "list_all zero_filled (freed st1)"
    by auto
  then show ?case using rest by (rule Cons.IH)
qed

lemma free_slot_id_loop_split:
  "sid \<notin> slot_id ` set ys \<Longrightarrow> slot_id s = sid \<Longrightarrow>
   free_slot_id_loop (ys @ s # zs) sid = Some (s, ys @ zs)"
  by (induction ys) auto

lemma free_context_ctx_loop_split:
  "p \<notin> ctx_addr ` set xs \<Longrightarrow> ctx_addr c = p \<Longrightarrow>
   free_context_ctx_loop p (xs @ c # ys) fr = Some (xs @ ys, fr @ destroy_ctx c)"
  by (induction xs) (auto simp: destroy_simps)

lemma free_context_ticket_loop_split:
  "\<forall>x\<in>set xs. \<not> memcmp_eq t (client_ticket x) n \<Longrightarrow> memcmp_eq t (client_ticket c) n \<Longrightarrow>
   free_context_ticket_loop n t (xs @ c # ys) fr = Some (xs @ ys, fr @ destroy_ctx c)"
  by (induction xs) (auto simp: destroy_simps)

lemma destroy_ctx_wiped: "destroy_ctx c = map wiped_slot (slots c) @ [wiped_ctx c]"
proof -
  have "concat (map (\<lambda>s. kzfree_slot s []) xs) = map wiped_slot xs" for xs
    by (induction xs) (simp_all add: kzfree_slot_def)
  then show ?thesis by (simp add: destroy_ctx_def kzfree_ctx_def)
qed

lemma do_call_st_keyed: "do_call K_ex (Free_context_ctx (Some 1)) st_keyed = Some st_wiped"
  by (simp add: st_keyed_def st_wiped_def call_defs ex_defs)

lemma run_calls_keyed: "run K_ex calls_keyed keystore_init = Some st_wiped"
  by (simp add: calls_keyed_def st_wiped_def call_defs ex_defs)

text \<open>
  C3. Every path that destroys a slot releases it zero-filled. Each of the four
  functions, when it succeeds, appends to the released memory exactly this:
  \<^item> \<open>dal_keystore_free_slot_id\<close>, for the first slot \<open>s\<close> with the id: one slot object
    of the extent of \<open>s\<close> (a key buffer as long as that of \<open>s\<close>) in which the id, the
    key size and every byte of the key buffer are zero, and \<open>s\<close> leaves the context;
  \<^item> \<open>dal_keystore_free_context_ctx\<close> and \<open>dal_keystore_free_context_ticket\<close>, for
    the first context \<open>d\<close> with the address, or whose ticket matches: one such zero-filled
    slot object for every slot of \<open>d\<close>, in list order, then the zero-filled context, and
    \<open>d\<close> leaves the registry;
  \<^item> \<open>dal_keystore_free_contexts\<close>: the same for every context of the registry, in
    registry order, and the registry is empty afterwards.
  Whatever call is made, what it appends consists of zero-filled objects only, one slot
  object for every slot that leaves the live state; and in every state reached from the
  empty registry all released memory was zero-filled at its release.
\<close>

theorem secure_erase:
  "(0 \<le> sid \<and> sid < DAL_KEYSTORE_SLOTS_MAX K \<and> slots c = ys @ s # zs \<and> slot_id s = sid \<and>
    sid \<notin> slot_id ` set ys \<longrightarrow>
      dal_keystore_free_slot_id K (Some c) sid fr =
        (0, Some (c\<lparr>slots := ys @ zs\<rparr>), fr @ [wiped_slot s])) \<and>
   (dal_contexts st = xs @ d # xs' \<and> ctx_addr d = p \<and> p \<notin> ctx_addr ` set xs \<longrightarrow>
      dal_keystore_free_context_ctx (Some p) st =
        (0, st\<lparr>dal_contexts := xs @ xs',
               freed := freed st @ map wiped_slot (slots d) @ [wiped_ctx d]\<rparr>)) \<and>
   (dal_contexts st = xs @ d # xs' \<and>
    take (KEYSTORE_CLIENT_TICKET_SIZE K) t =
      take (KEYSTORE_CLIENT_TICKET_SIZE K) (client_ticket d) \<and>
    (\<forall>x\<in>set xs. take (KEYSTORE_CLIENT_TICKET_SIZE K) t \<noteq>
       take (KEYSTORE_CLIENT_TICKET_SIZE K) (client_ticket x)) \<longrightarrow>
      dal_keystore_free_context_ticket K (Some t) st =
        (0, st\<lparr>dal_contexts := xs @ xs',
               freed := freed st @ map wiped_slot (slots d) @ [wiped_ctx d]\<rparr>)) \<and>
   dal_keystore_free_contexts st =
     st\<lparr>dal_contexts := [],
        freed := freed st @
          concat (map (\<lambda>d. map wiped_slot (slots d) @ [wiped_ctx d]) (dal_contexts st))\<rparr> \<and>
   (do_call K x st = Some st' \<longrightarrow>
      (\<exists>ms. freed st' = freed st @ ms \<and> list_all zero_filled ms \<and>
            length (filter is_freed_slot ms) = live_slots st - live_slots st')) \<and>
   (run K calls keystore_init = Some st'' \<longrightarrow> list_all zero_filled (freed st''))"
proof -
  let ?n = "KEYSTORE_CLIENT_TICKET_SIZE K"
  have slot: "dal_keystore_free_slot_id K (Some c) sid fr =
        (0, Some (c\<lparr>slots := ys @ zs\<rparr>), fr @ [wiped_slot s])"
    if "0 \<le> sid" "sid < DAL_KEYSTORE_SLOTS_MAX K" "slots c = ys @ s # zs" "slot_id s = sid"
      "sid \<notin> slot_id ` set ys"
    using that free_slot_id_loop_split [of sid ys s zs]
    by (simp add: dal_keystore_free_slot_id_def kzfree_slot_def)
  have by_ctx: "dal_keystore_free_context_ctx (Some p) st =
        (0, st\<lparr>dal_contexts := xs @ xs',
               freed := freed st @ map wiped_slot (slots d) @ [wiped_ctx d]\<rparr>)"
    if "dal_contexts st = xs @ d # xs'" "ctx_addr d = p" "p \<notin> ctx_addr ` set xs"
    using that free_context_ctx_loop_split [of p xs d xs' "freed st"]
    by (simp add: dal_keystore_free_context_ctx_def destroy_ctx_wiped)
  have by_ticket: "dal_keystore_free_context_ticket K (Some t) st =
        (0, st\<lparr>dal_contexts := xs @ xs',
               freed := freed st @ map wiped_slot (slots d) @ [wiped_ctx d]\<rparr>)"
    if "dal_contexts st = xs @ d # xs'" "take ?n t = take ?n (client_ticket d)"
      "\<forall>x\<in>set xs. take ?n t \<noteq> take ?n (client_ticket x)"
    using that free_context_ticket_loop_split [of xs t ?n d xs' "freed st"]
    by (simp add: dal_keystore_free_context_ticket_def destroy_ctx_wiped memcmp_eq_def)
  have "concat (map destroy_ctx cs) =
      concat (map (\<lambda>d. map wiped_slot (slots d) @ [wiped_ctx d]) cs)" for cs
    by (induction cs) (simp_all add: destroy_ctx_wiped)
  then have all: "dal_keystore_free_contexts st =
     st\<lparr>dal_contexts := [],
        freed := freed st @
          concat (map (\<lambda>d. map wiped_slot (slots d) @ [wiped_ctx d]) (dal_contexts st))\<rparr>"
    by (simp add: dal_keystore_free_contexts_def free_contexts_loop_eq)
  have "list_all zero_filled (freed keystore_init)" by (simp add: keystore_init_def)
  from run_freed [OF this] do_call_freed [of K x st st'] slot by_ctx by_ticket all
  show ?thesis by blast
qed

lemma ctx_keyed_slots:
  "slots ctx_keyed = [slot_keyed 1 [1, 2]] @ \<lparr>slot_id = 0, wrapped_key_size = 1, wrapped_key = [3, 0]\<rparr> # []"
  "dal_contexts st_keyed = [] @ ctx_keyed # []"
  by (simp_all add: ctx_keyed_def st_keyed_def slot_keyed_def)

theorem secure_erase_witness:
  "dal_keystore_free_slot_id K_ex (Some ctx_keyed) 0 [] =
     (0, Some (ctx_keyed\<lparr>slots := [slot_keyed 1 [1, 2]]\<rparr>), [Freed_slot (slot_ex 0)]) \<and>
   dal_keystore_free_context_ctx (Some 1) st_keyed = (0, st_wiped) \<and>
   dal_keystore_free_context_ticket K_ex (Some [7, 9]) st_keyed = (0, st_wiped) \<and>
   dal_keystore_free_contexts st_keyed = st_wiped \<and>
   do_call K_ex (Free_context_ctx (Some 1)) st_keyed = Some st_wiped \<and>
   run K_ex calls_keyed keystore_init = Some st_wiped \<and>
   list_all zero_filled (freed st_wiped) \<and>
   freed st_wiped = [Freed_slot (slot_ex 0), Freed_slot (slot_ex 0), Freed_ctx [0, 0]] \<and>
   live_slots st_keyed - live_slots st_wiped = 2"
proof -
  note inst = secure_erase [of 0 K_ex ctx_keyed "[slot_keyed 1 [1, 2]]"
      "\<lparr>slot_id = 0, wrapped_key_size = 1, wrapped_key = [3, 0]\<rparr>" "[]" "[]"
      st_keyed "[]" ctx_keyed "[]" 1 "[7, 9]" "Free_context_ctx (Some 1)" st_wiped
      calls_keyed st_wiped]
  have slot: "(0::int) \<le> 0 \<and> 0 < DAL_KEYSTORE_SLOTS_MAX K_ex \<and>
      slot_id \<lparr>slot_id = 0, wrapped_key_size = 1, wrapped_key = [3, 0 :: byte]\<rparr> = 0 \<and>
      0 \<notin> slot_id ` set [slot_keyed 1 [1, 2]]"
    by (simp add: K_ex_def slot_keyed_def)
  have ctx: "ctx_addr ctx_keyed = 1 \<and> 1 \<notin> ctx_addr ` set []"
    by (simp add: ctx_keyed_def)
  have ticket: "take (KEYSTORE_CLIENT_TICKET_SIZE K_ex) [7, 9] =
      take (KEYSTORE_CLIENT_TICKET_SIZE K_ex) (client_ticket ctx_keyed) \<and>
    (\<forall>x\<in>set []. take (KEYSTORE_CLIENT_TICKET_SIZE K_ex) [7, 9] \<noteq>
       take (KEYSTORE_CLIENT_TICKET_SIZE K_ex) (client_ticket x))"
    by (simp add: ctx_keyed_def)
  from inst slot ctx ticket ctx_keyed_slots do_call_st_keyed run_calls_keyed
  have "dal_keystore_free_slot_id K_ex (Some ctx_keyed) 0 [] =
        (0, Some (ctx_keyed\<lparr>slots := [slot_keyed 1 [1, 2]] @ []\<rparr>),
         [] @ [wiped_slot \<lparr>slot_id = 0, wrapped_key_size = 1, wrapped_key = [3, 0]\<rparr>])"
    and "dal_keystore_free_context_ctx (Some 1) st_keyed =
        (0, st_keyed\<lparr>dal_contexts := [] @ [],
               freed := freed st_keyed @ map wiped_slot (slots ctx_keyed) @ [wiped_ctx ctx_keyed]\<rparr>)"
    and "dal_keystore_free_context_ticket K_ex (Some [7, 9]) st_keyed =
        (0, st_keyed\<lparr>dal_contexts := [] @ [],
               freed := freed st_keyed @ map wiped_slot (slots ctx_keyed) @ [wiped_ctx ctx_keyed]\<rparr>)"
    and "dal_keystore_free_contexts st_keyed =
       st_keyed\<lparr>dal_contexts := [],
        freed := freed st_keyed @
          concat (map (\<lambda>d. map wiped_slot (slots d) @ [wiped_ctx d]) (dal_contexts st_keyed))\<rparr>"
    and "list_all zero_filled (freed st_wiped)"
    by blast+
  then show ?thesis
    using do_call_st_keyed run_calls_keyed
    by (simp add: st_keyed_def st_wiped_def ctx_keyed_def slot_ex_def live_slots_def)
qed

section \<open>Order of the slot list and results of freeing a slot\<close>

text \<open>
  C5 (as stated). Slots are not kept in allocation order: after two allocations in a
  fresh context the slot allocated first (id 0) is the last element of the list, behind
  the slot allocated second (id 1).
\<close>

theorem slot_order_counterexample:
  "dal_keystore_allocate_slot K_ex True (Some (ctx_ex 1 [0, 0] [])) =
     (Some (slot_ex 0), Some (ctx_ex 1 [0, 0] [0])) \<and>
   dal_keystore_allocate_slot K_ex True (Some (ctx_ex 1 [0, 0] [0])) =
     (Some (slot_ex 1), Some (ctx_ex 1 [0, 0] [1, 0])) \<and>
   slots (ctx_ex 1 [0, 0] [1, 0]) = [slot_ex 1, slot_ex 0] \<and>
   slots (ctx_ex 1 [0, 0] [1, 0]) \<noteq> [slot_ex 0, slot_ex 1]"
  using allocate_slot_example(1,2) by (simp add: ctx_ex_def slot_ex_def)

text \<open>
  C5 (amended). The slot list is in reverse allocation order: a successful
  \<open>dal_keystore_allocate_slot\<close> puts the new slot in front of all slots allocated
  before, whose order it leaves as it is, and a successful \<open>dal_keystore_free_slot_id\<close>
  takes one slot out and leaves the order of the others as it is.
\<close>

theorem slot_order_newest_first:
  "(dal_keystore_allocate_slot K kz (Some c) = (Some s, Some c') \<longrightarrow>
      slots c' = s # slots c) \<and>
   (dal_keystore_free_slot_id K (Some c) sid fr = (0, Some c'', fr') \<longrightarrow>
      (\<exists>ys s' zs. slots c = ys @ s' # zs \<and> slots c'' = ys @ zs))"
proof -
  have "slots c' = s # slots c"
    if "dal_keystore_allocate_slot K kz (Some c) = (Some s, Some c')"
    using allocate_slot_cases [OF that] by auto
  moreover have "\<exists>ys s' zs. slots c = ys @ s' # zs \<and> slots c'' = ys @ zs"
    if "dal_keystore_free_slot_id K (Some c) sid fr = (0, Some c'', fr')"
  proof -
    from free_slot_id_cases [OF that] obtain ys s' zs where
      "slots c = ys @ s' # zs" "Some c'' = Some (c\<lparr>slots := ys @ zs\<rparr>)"
      by auto
    then have "slots c = ys @ s' # zs \<and> slots c'' = ys @ zs" by simp
    then show ?thesis by blast
  qed
  ultimately show ?thesis by blast
qed

theorem slot_order_newest_first_witness:
  "dal_keystore_allocate_slot K_ex True (Some (ctx_ex 1 [0, 0] [2, 0])) =
     (Some (slot_ex 1), Some (ctx_ex 1 [0, 0] [1, 2, 0])) \<and>
   slots (ctx_ex 1 [0, 0] [1, 2, 0]) = slot_ex 1 # slots (ctx_ex 1 [0, 0] [2, 0]) \<and>
   dal_keystore_free_slot_id K_ex (Some (ctx_ex 1 [0, 0] [2, 1, 0])) 1 [] =
     (0, Some (ctx_ex 1 [0, 0] [2, 0]), [Freed_slot (slot_ex 0)]) \<and>
   (\<exists>ys s' zs. slots (ctx_ex 1 [0, 0] [2, 1, 0]) = ys @ s' # zs \<and>
      slots (ctx_ex 1 [0, 0] [2, 0]) = ys @ zs)"
  using slot_order_newest_first [of K_ex True "ctx_ex 1 [0, 0] [2, 0]" "slot_ex 1"
      "ctx_ex 1 [0, 0] [1, 2, 0]"]
    slot_order_newest_first [of K_ex _ "ctx_ex 1 [0, 0] [2, 1, 0]" _ _ 1 "[]"
      "ctx_ex 1 [0, 0] [2, 0]" "[Freed_slot (slot_ex 0)]"]
    allocate_slot_example(4,5)
  by simp

text \<open>
  C6 (as stated). An id in range that no slot has and an id out of range get the same
  error code, \<open>-EINVAL\<close>; a null context gets another one, \<open>-EFAULT\<close>.
\<close>

theorem free_slot_errors_counterexample:
  "dal_keystore_free_slot_id K_ex (Some (ctx_ex 1 [0, 0] [2, 0])) 1 [] =
     (- 22, Some (ctx_ex 1 [0, 0] [2, 0]), []) \<and>
   dal_keystore_free_slot_id K_ex (Some (ctx_ex 1 [0, 0] [2, 0])) 4 [] =
     (- 22, Some (ctx_ex 1 [0, 0] [2, 0]), []) \<and>
   dal_keystore_free_slot_id K_ex None 1 [] = (- 14, None, [])"
  by (simp add: dal_keystore_free_slot_id_def EINVAL_def EFAULT_def K_ex_def ctx_ex_def
        slot_ex_def)

text \<open>
  C6 (amended). \<open>dal_keystore_free_slot_id\<close> returns \<open>-EFAULT\<close> for a null
  context, and \<open>-EINVAL\<close> both for an id outside \<open>[0, DAL_KEYSTORE_SLOTS_MAX)\<close> and
  for an id in range that no slot of the context has; in these cases nothing changes.
  Otherwise it returns 0, takes the first slot with that id out of the list (the only
  one when ids are unique), leaves the others as they are, and releases that slot.
\<close>

theorem free_slot_id_result:
  "dal_keystore_free_slot_id K None sid fr = (- EFAULT, None, fr) \<and>
   (sid < 0 \<or> DAL_KEYSTORE_SLOTS_MAX K \<le> sid \<longrightarrow>
      dal_keystore_free_slot_id K (Some c) sid fr = (- EINVAL, Some c, fr)) \<and>
   (0 \<le> sid \<and> sid < DAL_KEYSTORE_SLOTS_MAX K \<and> sid \<notin> slot_ids c \<longrightarrow>
      dal_keystore_free_slot_id K (Some c) sid fr = (- EINVAL, Some c, fr)) \<and>
   (0 \<le> sid \<and> sid < DAL_KEYSTORE_SLOTS_MAX K \<and> sid \<in> slot_ids c \<longrightarrow>
      (\<exists>ys s zs. slots c = ys @ s # zs \<and> slot_id s = sid \<and> sid \<notin> slot_id ` set ys \<and>
         dal_keystore_free_slot_id K (Some c) sid fr =
           (0, Some (c\<lparr>slots := ys @ zs\<rparr>), kzfree_slot s fr)))"
proof -
  have "\<exists>ys s zs. slots c = ys @ s # zs \<and> slot_id s = sid \<and> sid \<notin> slot_id ` set ys \<and>
         dal_keystore_free_slot_id K (Some c) sid fr =
           (0, Some (c\<lparr>slots := ys @ zs\<rparr>), kzfree_slot s fr)"
    if range: "0 \<le> sid" "sid < DAL_KEYSTORE_SLOTS_MAX K" and used: "sid \<in> slot_ids c"
  proof -
    from used obtain s rest where loop: "free_slot_id_loop (slots c) sid = Some (s, rest)"
      using free_slot_id_loop_None [of "slots c" sid] by (auto simp: slot_ids_def)
    from free_slot_id_loop_Some [OF loop] obtain ys zs where
      "slots c = ys @ s # zs" "slot_id s = sid" "sid \<notin> slot_id ` set ys" "rest = ys @ zs"
      by blast
    moreover from range loop
    have "dal_keystore_free_slot_id K (Some c) sid fr = (0, Some (c\<lparr>slots := rest\<rparr>), kzfree_slot s fr)"
      by (simp add: dal_keystore_free_slot_id_def)
    ultimately show ?thesis by blast
  qed
  moreover have "dal_keystore_free_slot_id K (Some c) sid fr = (- EINVAL, Some c, fr)"
    if "sid \<notin> slot_ids c"
    using that free_slot_id_loop_None [of "slots c" sid]
    by (simp add: dal_keystore_free_slot_id_def slot_ids_def)
  ultimately show ?thesis
    by (auto simp: dal_keystore_free_slot_id_def)
qed

theorem free_slot_id_result_witness:
  "dal_keystore_free_slot_id K_ex None 1 [] = (- EFAULT, None, []) \<and>
   dal_keystore_free_slot_id K_ex (Some (ctx_ex 1 [0, 0] [2, 1, 0])) 4 [] =
     (- EINVAL, Some (ctx_ex 1 [0, 0] [2, 1, 0]), []) \<and>
   dal_keystore_free_slot_id K_ex (Some (ctx_ex 1 [0, 0] [2, 1, 0])) 3 [] =
     (- EINVAL, Some (ctx_ex 1 [0, 0] [2, 1, 0]), []) \<and>
   (\<exists>ys s zs. slots (ctx_ex 1 [0, 0] [2, 1, 0]) = ys @ s # zs \<and> slot_id s = 1 \<and>
      1 \<notin> slot_id ` set ys \<and>
      dal_keystore_free_slot_id K_ex (Some (ctx_ex 1 [0, 0] [2, 1, 0])) 1 [] =
        (0, Some ((ctx_ex 1 [0, 0] [2, 1, 0])\<lparr>slots := ys @ zs\<rparr>), kzfree_slot s []))"
proof -
  let ?c = "ctx_ex 1 [0, 0] [2, 1, 0]"
  have ids: "(1::int) \<in> slot_ids ?c" "(3::int) \<notin> slot_ids ?c"
    by (simp_all add: slot_ids_def ctx_ex_def slot_ex_def)
  have range: "(0::int) \<le> 1 \<and> 1 < DAL_KEYSTORE_SLOTS_MAX K_ex"
    "(0::int) \<le> 3 \<and> 3 < DAL_KEYSTORE_SLOTS_MAX K_ex" "DAL_KEYSTORE_SLOTS_MAX K_ex \<le> 4"
    by (simp_all add: K_ex_def)
  from free_slot_id_result [of K_ex 1 "[]" ?c] ids(1) range(1)
  have found: "\<exists>ys s zs. slots ?c = ys @ s # zs \<and> slot_id s = 1 \<and> 1 \<notin> slot_id ` set ys \<and>
      dal_keystore_free_slot_id K_ex (Some ?c) 1 [] =
        (0, Some (?c\<lparr>slots := ys @ zs\<rparr>), kzfree_slot s [])"
    and null: "dal_keystore_free_slot_id K_ex None 1 [] = (- EFAULT, None, [])"
    by blast+
  from free_slot_id_result [of K_ex 4 "[]" ?c] range(3)
  have out: "dal_keystore_free_slot_id K_ex (Some ?c) 4 [] = (- EINVAL, Some ?c, [])"
    by blast
  from free_slot_id_result [of K_ex 3 "[]" ?c] ids(2) range(2)
  have missing: "dal_keystore_free_slot_id K_ex (Some ?c) 3 [] = (- EINVAL, Some ?c, [])"
    by blast
  from null out missing found show ?thesis by blast
qed

section \<open>Lookup and release of contexts by ticket\<close>

lemma take_agrees:
  assumes "take n t = take n u" and "i < n" and "i < length t" and "i < length u"
  shows "t ! i = u ! i"
proof -
  from assms(1) have "take n t ! i = take n u ! i" by simp
  with assms(2) show ?thesis by simp
qed

text \<open>
  C7 (as stated). A null ticket is not told apart from a ticket that matches no
  context: \<open>dal_keystore_find_context_ticket\<close> returns \<open>NULL\<close> for both.
\<close>

theorem find_context_null_counterexample:
  "dal_keystore_find_context_ticket K_ex None st_tickets = None \<and>
   dal_keystore_find_context_ticket K_ex (Some [5, 8]) st_tickets = None"
  by (simp add: dal_keystore_find_context_ticket_def st_tickets_def memcmp_eq_def K_ex_def
        ctx_ex_def)

text \<open>
  C7 (amended). \<open>dal_keystore_find_context_ticket\<close> returns the first context of the
  registry whose \<open>client_ticket\<close> agrees with the ticket on the first
  \<open>KEYSTORE_CLIENT_TICKET_SIZE\<close> bytes, and \<open>NULL\<close> both when no context agrees with it
  (a ticket that differs from a context's ticket in a single one of these bytes does not
  agree with it) and when the ticket is null. It reads the registry and returns no new
  state.
\<close>

theorem find_context_ticket_result:
  "dal_keystore_find_context_ticket K None st = None \<and>
   (dal_keystore_find_context_ticket K (Some t) st = Some c) =
     (\<exists>xs ys. dal_contexts st = xs @ c # ys \<and>
        take (KEYSTORE_CLIENT_TICKET_SIZE K) t =
          take (KEYSTORE_CLIENT_TICKET_SIZE K) (client_ticket c) \<and>
        (\<forall>x\<in>set xs. take (KEYSTORE_CLIENT_TICKET_SIZE K) t \<noteq>
           take (KEYSTORE_CLIENT_TICKET_SIZE K) (client_ticket x))) \<and>
   (dal_keystore_find_context_ticket K (Some t) st = None) =
     (\<forall>x\<in>set (dal_contexts st). take (KEYSTORE_CLIENT_TICKET_SIZE K) t \<noteq>
        take (KEYSTORE_CLIENT_TICKET_SIZE K) (client_ticket x)) \<and>
   ((\<forall>x\<in>set (dal_contexts st). \<exists>i<KEYSTORE_CLIENT_TICKET_SIZE K.
        i < length t \<and> i < length (client_ticket x) \<and> t ! i \<noteq> client_ticket x ! i) \<longrightarrow>
      dal_keystore_find_context_ticket K (Some t) st = None)"
proof -
  let ?n = "KEYSTORE_CLIENT_TICKET_SIZE K"
  have none: "(dal_keystore_find_context_ticket K (Some t) st = None) =
     (\<forall>x\<in>set (dal_contexts st). take ?n t \<noteq> take ?n (client_ticket x))"
    by (simp add: dal_keystore_find_context_ticket_def find_context_ticket_loop_None
          memcmp_eq_def)
  have some: "(dal_keystore_find_context_ticket K (Some t) st = Some c) =
     (\<exists>xs ys. dal_contexts st = xs @ c # ys \<and> take ?n t = take ?n (client_ticket c) \<and>
        (\<forall>x\<in>set xs. take ?n t \<noteq> take ?n (client_ticket x)))"
    by (simp add: dal_keystore_find_context_ticket_def find_context_ticket_loop_Some
          memcmp_eq_def)
  have byte: "dal_keystore_find_context_ticket K (Some t) st = None"
    if "\<forall>x\<in>set (dal_contexts st). \<exists>i<?n.
        i < length t \<and> i < length (client_ticket x) \<and> t ! i \<noteq> client_ticket x ! i"
    unfolding none
  proof
    fix x
    assume "x \<in> set (dal_contexts st)"
    with that obtain i where "i < ?n" "i < length t" "i < length (client_ticket x)"
      "t ! i \<noteq> client_ticket x ! i"
      by blast
    then show "take ?n t \<noteq> take ?n (client_ticket x)"
      using take_agrees [of ?n t "client_ticket x" i] by blast
  qed
  have "dal_keystore_find_context_ticket K None st = None"
    by (simp add: dal_keystore_find_context_ticket_def)
  with none some byte show ?thesis by blast
qed

theorem find_context_ticket_result_witness:
  "dal_keystore_find_context_ticket K_ex (Some [5, 7]) st_tickets = Some (ctx_ex 1 [5, 7] [0]) \<and>
   dal_keystore_find_context_ticket K_ex (Some [5, 8]) st_tickets = None \<and>
   (\<exists>xs ys. dal_contexts st_tickets = xs @ ctx_ex 1 [5, 7] [0] # ys \<and>
      (\<forall>x\<in>set xs. take 2 [5, 7] \<noteq> take 2 (client_ticket x)))"
proof -
  have differs: "\<forall>x\<in>set (dal_contexts st_tickets). \<exists>i<KEYSTORE_CLIENT_TICKET_SIZE K_ex.
        i < length [5, 8 :: byte] \<and> i < length (client_ticket x) \<and>
        [5, 8] ! i \<noteq> client_ticket x ! i"
  proof -
    have "(1::nat) < KEYSTORE_CLIENT_TICKET_SIZE K_ex \<and> (1::nat) < length [5, 8 :: byte]"
      by (simp add: K_ex_def)
    moreover have "\<forall>x\<in>set (dal_contexts st_tickets).
      1 < length (client_ticket x) \<and> [5, 8] ! 1 \<noteq> client_ticket x ! 1"
      by (simp add: st_tickets_def ctx_ex_def)
    ultimately show ?thesis by blast
  qed
  have found: "dal_keystore_find_context_ticket K_ex (Some [5, 7]) st_tickets =
      Some (ctx_ex 1 [5, 7] [0])"
    by (simp add: dal_keystore_find_context_ticket_def st_tickets_def memcmp_eq_def K_ex_def
          ctx_ex_def)
  from find_context_ticket_result [of K_ex st_tickets "[5, 8]"] differs
  have missed: "dal_keystore_find_context_ticket K_ex (Some [5, 8]) st_tickets = None"
    by blast
  from find_context_ticket_result [of K_ex st_tickets "[5, 7]" "ctx_ex 1 [5, 7] [0]"] found
  have "\<exists>xs ys. dal_contexts st_tickets = xs @ ctx_ex 1 [5, 7] [0] # ys \<and>
      (\<forall>x\<in>set xs. take (KEYSTORE_CLIENT_TICKET_SIZE K_ex) [5, 7] \<noteq>
         take (KEYSTORE_CLIENT_TICKET_SIZE K_ex) (client_ticket x))"
    by blast
  then have "\<exists>xs ys. dal_contexts st_tickets = xs @ ctx_ex 1 [5, 7] [0] # ys \<and>
      (\<forall>x\<in>set xs. take 2 [5, 7] \<noteq> take 2 (client_ticket x))"
    by (simp add: K_ex_def)
  with found missed show ?thesis by blast
qed

text \<open>
  C8 (as stated). Two contexts allocated one after the other both carry the all-zero
  ticket that \<open>kzalloc\<close> leaves. Freeing by that ticket succeeds and removes one of
  them; a lookup with the same ticket then still finds the other one.
\<close>

theorem free_then_find_counterexample:
  "run K_ex [Allocate_context (Some 1), Allocate_context (Some 2)] keystore_init = Some st_dup \<and>
   dal_keystore_free_context_ticket K_ex (Some [0, 0]) st_dup = (0, st_dup_freed) \<and>
   dal_keystore_find_context_ticket K_ex (Some [0, 0]) st_dup_freed = Some (ctx_ex 1 [0, 0] [])"
  by (simp add: st_dup_def st_dup_freed_def call_defs ex_defs)

text \<open>
  C8 (amended). A successful \<open>dal_keystore_free_context_ticket\<close> removes the first
  context of the registry whose ticket matches, together with its slots, which are all
  released, and leaves the other contexts as they are. A lookup with the same ticket
  afterwards gives what a lookup among the contexts behind the removed one gives: the
  next matching context if there is one, and \<open>NULL\<close> provided that no other live
  context carries a matching ticket.
\<close>

theorem free_context_ticket_result:
  assumes "dal_keystore_free_context_ticket K (Some t) st = (0, st')"
  shows "\<exists>xs c ys. dal_contexts st = xs @ c # ys \<and>
           take (KEYSTORE_CLIENT_TICKET_SIZE K) t =
             take (KEYSTORE_CLIENT_TICKET_SIZE K) (client_ticket c) \<and>
           (\<forall>x\<in>set xs. take (KEYSTORE_CLIENT_TICKET_SIZE K) t \<noteq>
              take (KEYSTORE_CLIENT_TICKET_SIZE K) (client_ticket x)) \<and>
           dal_contexts st' = xs @ ys \<and> freed st' = freed st @ destroy_ctx c \<and>
           dal_keystore_find_context_ticket K (Some t) st' =
             dal_keystore_find_context_ticket K (Some t) (st\<lparr>dal_contexts := ys\<rparr>) \<and>
           ((\<forall>y\<in>set ys. take (KEYSTORE_CLIENT_TICKET_SIZE K) t \<noteq>
               take (KEYSTORE_CLIENT_TICKET_SIZE K) (client_ticket y)) \<longrightarrow>
            dal_keystore_find_context_ticket K (Some t) st' = None)"
proof -
  let ?n = "KEYSTORE_CLIENT_TICKET_SIZE K"
  from assms obtain cs fr where
    loop: "free_context_ticket_loop ?n t (dal_contexts st) (freed st) = Some (cs, fr)"
    and st': "dal_contexts st' = cs" "freed st' = fr"
    by (auto simp: dal_keystore_free_context_ticket_def EINVAL_def split: option.splits)
  from free_context_ticket_loop_Some [OF loop] obtain xs c ys where
    split: "dal_contexts st = xs @ c # ys" "memcmp_eq t (client_ticket c) ?n"
      "\<forall>x\<in>set xs. \<not> memcmp_eq t (client_ticket x) ?n" "cs = xs @ ys"
      "fr = freed st @ destroy_ctx c"
    by blast
  from split(3) have "find_context_ticket_loop ?n t (xs @ ys) = find_context_ticket_loop ?n t ys"
    by (induction xs) simp_all
  with split(4) st'(1)
  have behind: "dal_keystore_find_context_ticket K (Some t) st' =
      dal_keystore_find_context_ticket K (Some t) (st\<lparr>dal_contexts := ys\<rparr>)"
    by (simp add: dal_keystore_find_context_ticket_def)
  have "dal_keystore_find_context_ticket K (Some t) st' = None"
    if "\<forall>y\<in>set ys. take ?n t \<noteq> take ?n (client_ticket y)"
    using that split(3,4) st'(1)
    by (auto simp: dal_keystore_find_context_ticket_def find_context_ticket_loop_None
          memcmp_eq_def)
  with split st' behind have "dal_contexts st = xs @ c # ys \<and>
      take ?n t = take ?n (client_ticket c) \<and>
      (\<forall>x\<in>set xs. take ?n t \<noteq> take ?n (client_ticket x)) \<and>
      dal_contexts st' = xs @ ys \<and> freed st' = freed st @ destroy_ctx c \<and>
      dal_keystore_find_context_ticket K (Some t) st' =
        dal_keystore_find_context_ticket K (Some t) (st\<lparr>dal_contexts := ys\<rparr>) \<and>
      ((\<forall>y\<in>set ys. take ?n t \<noteq> take ?n (client_ticket y)) \<longrightarrow>
        dal_keystore_find_context_ticket K (Some t) st' = None)"
    by (simp add: memcmp_eq_def)
  then show ?thesis by blast
qed

lemma free_context_ticket_st_tickets:
  "dal_keystore_free_context_ticket K_ex (Some [5, 7]) st_tickets =
     (0, \<lparr>dal_contexts = [ctx_ex 2 [5, 6] []],
          freed = [Freed_slot (slot_ex 0), Freed_ctx [0, 0]]\<rparr>)"
  by (simp add: st_tickets_def call_defs ex_defs)

theorem free_context_ticket_result_witness:
  "dal_keystore_free_context_ticket K_ex (Some [5, 7]) st_tickets =
     (0, \<lparr>dal_contexts = [ctx_ex 2 [5, 6] []],
          freed = [Freed_slot (slot_ex 0), Freed_ctx [0, 0]]\<rparr>) \<and>
   dal_keystore_find_context_ticket K_ex (Some [5, 7])
     \<lparr>dal_contexts = [ctx_ex 2 [5, 6] []],
      freed = [Freed_slot (slot_ex 0), Freed_ctx [0, 0]]\<rparr> = None"
proof -
  let ?st' = "\<lparr>dal_contexts = [ctx_ex 2 [5, 6] []],
      freed = [Freed_slot (slot_ex 0), Freed_ctx [0, 0]]\<rparr>"
  let ?n = "KEYSTORE_CLIENT_TICKET_SIZE K_ex"
  from free_context_ticket_result [OF free_context_ticket_st_tickets] obtain xs c ys where
    split: "dal_contexts st_tickets = xs @ c # ys" "take ?n [5, 7] = take ?n (client_ticket c)"
      "dal_contexts ?st' = xs @ ys"
    and find: "(\<forall>y\<in>set ys. take ?n [5, 7] \<noteq> take ?n (client_ticket y)) \<longrightarrow>
      dal_keystore_find_context_ticket K_ex (Some [5, 7]) ?st' = None"
    by blast
  from split(3) have "set ys \<subseteq> {ctx_ex 2 [5, 6] []}"
    by (cases xs) auto
  then have "\<forall>y\<in>set ys. take ?n [5, 7] \<noteq> take ?n (client_ticket y)"
    by (auto simp: K_ex_def ctx_ex_def)
  with find free_context_ticket_st_tickets show ?thesis by blast
qed

section \<open>Calls that fail\<close>

text \<open>
  C9. A call that reports an error changes nothing: \<open>dal_keystore_allocate_context\<close>
  and \<open>dal_keystore_allocate_slot\<close> that return \<open>NULL\<close>, and
  \<open>dal_keystore_free_slot_id\<close>, \<open>dal_keystore_free_context_ctx\<close> and
  \<open>dal_keystore_free_context_ticket\<close> that return a code other than 0, leave the
  registry, the context and the released memory exactly as they were. The two lookup
  functions only read; they return no state at all.
\<close>

theorem failed_call_changes_nothing:
  "(dal_keystore_allocate_context K kz st1 = (None, st1') \<longrightarrow> st1' = st1) \<and>
   (dal_keystore_allocate_slot K kz' ctx2 = (None, ctx2') \<longrightarrow> ctx2' = ctx2) \<and>
   (dal_keystore_free_slot_id K ctx3 sid fr3 = (r3, ctx3', fr3') \<and> r3 \<noteq> 0 \<longrightarrow>
      ctx3' = ctx3 \<and> fr3' = fr3) \<and>
   (dal_keystore_free_context_ctx p st4 = (r4, st4') \<and> r4 \<noteq> 0 \<longrightarrow> st4' = st4) \<and>
   (dal_keystore_free_context_ticket K t st5 = (r5, st5') \<and> r5 \<noteq> 0 \<longrightarrow> st5' = st5)"
proof -
  have "st1' = st1" if "dal_keystore_allocate_context K kz st1 = (None, st1')"
    using that by (auto simp: allocate_context_eq split: if_splits option.splits)
  moreover have "ctx2' = ctx2" if "dal_keystore_allocate_slot K kz' ctx2 = (None, ctx2')"
    using that
    by (auto simp: dal_keystore_allocate_slot_def Let_def split: option.splits if_splits)
  moreover have "ctx3' = ctx3 \<and> fr3' = fr3"
    if "dal_keystore_free_slot_id K ctx3 sid fr3 = (r3, ctx3', fr3')" "r3 \<noteq> 0"
    using that
    by (auto simp: dal_keystore_free_slot_id_def split: option.splits if_splits)
  moreover have "st4' = st4"
    if "dal_keystore_free_context_ctx p st4 = (r4, st4')" "r4 \<noteq> 0"
    using that by (auto simp: dal_keystore_free_context_ctx_def split: option.splits)
  moreover have "st5' = st5"
    if "dal_keystore_free_context_ticket K t st5 = (r5, st5')" "r5 \<noteq> 0"
    using that by (auto simp: dal_keystore_free_context_ticket_def split: option.splits)
  ultimately show ?thesis by blast
qed

lemma failed_calls_example:
  "dal_keystore_allocate_context K_ex (Some 3) st_full = (None, st_full)"
  "dal_keystore_allocate_slot K_ex True (Some (ctx_ex 1 [0, 0] [3, 2, 1, 0])) =
     (None, Some (ctx_ex 1 [0, 0] [3, 2, 1, 0]))"
  "dal_keystore_free_slot_id K_ex (Some (ctx_ex 1 [0, 0] [2, 0])) 1 [] =
     (- 22, Some (ctx_ex 1 [0, 0] [2, 0]), [])"
  "dal_keystore_free_context_ctx (Some 7) st_full = (- 22, st_full)"
  "dal_keystore_free_context_ticket K_ex None st_full = (- 14, st_full)"
  by (simp_all add: st_full_def call_defs ex_defs)

theorem failed_call_changes_nothing_witness:
  "dal_keystore_allocate_context K_ex (Some 3) st_full = (None, st_full) \<and>
   dal_keystore_allocate_slot K_ex True (Some (ctx_ex 1 [0, 0] [3, 2, 1, 0])) =
     (None, Some (ctx_ex 1 [0, 0] [3, 2, 1, 0])) \<and>
   dal_keystore_free_slot_id K_ex (Some (ctx_ex 1 [0, 0] [2, 0])) 1 [] =
     (- 22, Some (ctx_ex 1 [0, 0] [2, 0]), []) \<and>
   dal_keystore_free_context_ctx (Some 7) st_full = (- 22, st_full) \<and>
   dal_keystore_free_context_ticket K_ex None st_full = (- 14, st_full)"
  using failed_call_changes_nothing [of K_ex "Some 3" st_full st_full True
      "Some (ctx_ex 1 [0, 0] [3, 2, 1, 0])" "Some (ctx_ex 1 [0, 0] [3, 2, 1, 0])"
      "Some (ctx_ex 1 [0, 0] [2, 0])" 1 "[]" "- 22" "Some (ctx_ex 1 [0, 0] [2, 0])" "[]"
      "Some 7" st_full "- 22" st_full None st_full "- 14" st_full]
    failed_calls_example
  by simp

section \<open>Order of the registry\<close>

text \<open>
  C10. \<open>dal_keystore_allocate_context\<close> puts the new context at the head of the
  registry. \<open>dal_keystore_find_context_ticket\<close> and
  \<open>dal_keystore_free_context_ticket\<close> take the matching context that is nearest to the
  head, whatever matching contexts follow it. So once a context has been allocated and
  the caller has written a ticket into it, both functions select this newest context,
  also when older contexts carry the same ticket.
\<close>

theorem newest_match_wins:
  "(dal_keystore_allocate_context K kz st = (Some item, st1) \<longrightarrow>
      dal_contexts st1 = item # dal_contexts st) \<and>
   (dal_contexts st2 = xs @ c # ys \<and>
    take (KEYSTORE_CLIENT_TICKET_SIZE K) t =
      take (KEYSTORE_CLIENT_TICKET_SIZE K) (client_ticket c) \<and>
    (\<forall>x\<in>set xs. take (KEYSTORE_CLIENT_TICKET_SIZE K) t \<noteq>
       take (KEYSTORE_CLIENT_TICKET_SIZE K) (client_ticket x)) \<longrightarrow>
      dal_keystore_find_context_ticket K (Some t) st2 = Some c \<and>
      dal_keystore_free_context_ticket K (Some t) st2 =
        (0, st2\<lparr>dal_contexts := xs @ ys, freed := freed st2 @ destroy_ctx c\<rparr>)) \<and>
   (dal_keystore_allocate_context K (Some a) st = (Some item, st1) \<and>
    do_call K (Write_ticket a u) st1 = Some st3 \<longrightarrow>
      dal_keystore_find_context_ticket K (Some u) st3 = Some (item\<lparr>client_ticket := u\<rparr>) \<and>
      dal_keystore_free_context_ticket K (Some u) st3 =
        (0, st3\<lparr>dal_contexts := dal_contexts st,
                freed := freed st3 @ destroy_ctx (item\<lparr>client_ticket := u\<rparr>)\<rparr>))"
proof -
  let ?n = "KEYSTORE_CLIENT_TICKET_SIZE K"
  have head: "dal_contexts s1 = it # dal_contexts s"
    if "dal_keystore_allocate_context K k s = (Some it, s1)" for k s it s1
    using that by (auto simp: allocate_context_eq split: if_splits option.splits)
  have first: "dal_keystore_find_context_ticket K (Some v) s = Some d \<and>
      dal_keystore_free_context_ticket K (Some v) s =
        (0, s\<lparr>dal_contexts := pre @ post, freed := freed s @ destroy_ctx d\<rparr>)"
    if split: "dal_contexts s = pre @ d # post" and d: "take ?n v = take ?n (client_ticket d)"
      and pre: "\<forall>x\<in>set pre. take ?n v \<noteq> take ?n (client_ticket x)" for s pre d post v
  proof -
    from split d pre have "dal_keystore_find_context_ticket K (Some v) s = Some d"
      unfolding dal_keystore_find_context_ticket_def option.case find_context_ticket_loop_Some
      by (auto simp: memcmp_eq_def)
    moreover have "free_context_ticket_loop ?n v (pre @ d # post) fr =
        Some (pre @ post, fr @ destroy_ctx d)" for fr
      using pre by (induction pre) (simp_all add: memcmp_eq_def d destroy_simps)
    with split have "dal_keystore_free_context_ticket K (Some v) s =
        (0, s\<lparr>dal_contexts := pre @ post, freed := freed s @ destroy_ctx d\<rparr>)"
      by (simp add: dal_keystore_free_context_ticket_def)
    ultimately show ?thesis by simp
  qed
  have newest: "dal_keystore_find_context_ticket K (Some u) st3 =
        Some (item\<lparr>client_ticket := u\<rparr>) \<and>
      dal_keystore_free_context_ticket K (Some u) st3 =
        (0, st3\<lparr>dal_contexts := dal_contexts st,
                freed := freed st3 @ destroy_ctx (item\<lparr>client_ticket := u\<rparr>)\<rparr>)"
    if alloc: "dal_keystore_allocate_context K (Some a) st = (Some item, st1)"
      and upd: "do_call K (Write_ticket a u) st1 = Some st3"
  proof -
    from alloc have item: "item = kzalloc_ctx K a" and st1: "dal_contexts st1 = item # dal_contexts st"
      by (auto simp: allocate_context_eq split: if_splits)
    from item have at: "ctx_at a (dal_contexts st1) = Some item"
      by (simp add: st1 kzalloc_ctx_def)
    with upd st1 have "dal_contexts st3 = [] @ item\<lparr>client_ticket := u\<rparr> # dal_contexts st"
      by (auto split: if_splits)
    from first [OF this] show ?thesis by simp
  qed
  from head [of kz st item st1] first [of st2 xs c ys t] newest show ?thesis by blast
qed

lemma newest_example:
  "dal_keystore_allocate_context K_ex (Some 2) st_one = (Some (ctx_ex 2 [0, 0] []),
     st_one\<lparr>dal_contexts := [ctx_ex 2 [0, 0] [], ctx_ex 1 [5, 7] [0]]\<rparr>)"
  "do_call K_ex (Write_ticket 2 [5, 7])
     (st_one\<lparr>dal_contexts := [ctx_ex 2 [0, 0] [], ctx_ex 1 [5, 7] [0]]\<rparr>) = Some st_two"
  by (simp_all add: st_one_def st_two_def call_defs ex_defs)

theorem newest_match_wins_witness:
  "dal_keystore_allocate_context K_ex (Some 2) st_one = (Some (ctx_ex 2 [0, 0] []),
     st_one\<lparr>dal_contexts := [ctx_ex 2 [0, 0] [], ctx_ex 1 [5, 7] [0]]\<rparr>) \<and>
   do_call K_ex (Write_ticket 2 [5, 7])
     (st_one\<lparr>dal_contexts := [ctx_ex 2 [0, 0] [], ctx_ex 1 [5, 7] [0]]\<rparr>) = Some st_two \<and>
   dal_contexts st_two = [ctx_ex 2 [5, 7] [], ctx_ex 1 [5, 7] [0]] \<and>
   dal_keystore_find_context_ticket K_ex (Some [5, 7]) st_two = Some (ctx_ex 2 [5, 7] []) \<and>
   dal_keystore_free_context_ticket K_ex (Some [5, 7]) st_two =
     (0, \<lparr>dal_contexts = [ctx_ex 1 [5, 7] [0]], freed = [Freed_ctx [0, 0]]\<rparr>)"
proof -
  have "dal_keystore_find_context_ticket K_ex (Some [5, 7]) st_two =
      Some ((ctx_ex 2 [0, 0] [])\<lparr>client_ticket := [5, 7]\<rparr>) \<and>
    dal_keystore_free_context_ticket K_ex (Some [5, 7]) st_two =
      (0, st_two\<lparr>dal_contexts := dal_contexts st_one,
            freed := freed st_two @ destroy_ctx ((ctx_ex 2 [0, 0] [])\<lparr>client_ticket := [5, 7]\<rparr>)\<rparr>)"
    using newest_match_wins [of K_ex _ st_one "ctx_ex 2 [0, 0] []"
        "st_one\<lparr>dal_contexts := [ctx_ex 2 [0, 0] [], ctx_ex 1 [5, 7] [0]]\<rparr>" _ _ _ _ _ 2
        "[5, 7]" st_two]
      newest_example by blast
  then show ?thesis
    using newest_example
    by (simp add: st_one_def st_two_def ctx_ex_def destroy_ctx_def kzfree_ctx_def)
qed

end
